theory Spec2Isabelle
  imports Main "HOL-Library.Word"
begin

section \<open>The worker-thread dispatcher of oneTBB (src/tbb/thread\_dispatcher.h)\<close>

text \<open>
  The class \<open>thread_dispatcher\<close> keeps the clients (one per arena) that may receive
  worker threads in \<open>num_priority_levels\<close> intrusive lists, one list per priority level,
  and hands an idle worker to the next client that accepts it.

  Client objects live in storage that the dispatcher allocates and frees, and the code
  works with raw pointers to them. The embedding therefore has an explicit store: an
  address is a natural number, a pointer is an \<open>addr option\<close> (\<open>None\<close> is
  \<open>nullptr\<close>), and the store maps the addresses that are allocated to the object
  found there. Reading through a pointer that is null or not allocated, indexing the
  array of lists out of range and a failing \<open>__TBB_ASSERT\<close> are results of type
  \<open>fault\<close>. The reader-writer mutex is not modelled: every member function below is
  one atomic step, which is what the lock gives the code.
\<close>

subsection \<open>Data\<close>

type_synonym addr = nat

text \<open>
  Modelled from the spec: the class \<open>thread_dispatcher_client\<close> is declared in
  clients.h, which is not among the sources. The dispatcher reads it through
  \<open>priority_level()\<close>, \<open>get_aba_epoch()\<close>, \<open>references()\<close> and
  \<open>num_workers_requested()\<close>; the specification gives a client a priority level, a
  64-bit ABA epoch, a reference count and a pending worker demand, the last two being
  integers that are never negative. \<open>num_workers_requested\<close> is that pending demand.
\<close>

record thread_dispatcher_client =
  priority_level :: nat
  aba_epoch :: "64 word"
  references :: nat
  num_workers_requested :: nat

datatype fault = assertion_failed | invalid_pointer | index_out_of_range

text \<open>
  The private members of \<open>thread_dispatcher\<close> that the member functions below use,
  with the store of client objects. \<open>my_client_list\<close> is the array
  \<open>client_list_type my_client_list[num_priority_levels]\<close>; each intrusive list is the
  list of the addresses of its nodes, front first. \<open>my_server\<close> stands for the RML
  server behind the pointer of that name: the calls of
  \<open>adjust_job_count_estimate\<close> it has received, oldest first.
\<close>

record thread_dispatcher =
  storage :: "addr \<rightharpoonup> thread_dispatcher_client"
  my_client_list :: "addr list list"
  my_next_client :: "addr option"
  my_clients_aba_epoch :: "64 word"
  my_server :: "32 word list"

definition num_priority_levels :: nat where
  "num_priority_levels = 3"

subsection \<open>select\_next\_client\<close>

text \<open>
  The value of the local \<open>next_client_priority_level\<close> before the loop:
  \<open>num_priority_levels\<close> for a null hint, \<open>hint->priority_level()\<close> otherwise.
\<close>

definition next_client_priority_level :: "thread_dispatcher \<Rightarrow> addr option \<Rightarrow> fault + nat" where
  "next_client_priority_level s hint =
     (case hint of
        None \<Rightarrow> Inr num_priority_levels
      | Some h \<Rightarrow>
          (case storage s h of
             None \<Rightarrow> Inl invalid_pointer
           | Some c \<Rightarrow> Inr (priority_level c)))"

text \<open>
  The loop \<open>for (idx = 0; idx < next_client_priority_level; ++idx)\<close>, entered at
  \<open>idx\<close>. \<open>Inr None\<close> says that the loop ran to its end without returning.
\<close>

function scan_levels :: "addr list list \<Rightarrow> nat \<Rightarrow> nat \<Rightarrow> fault + addr option" where
  "scan_levels clients idx lim =
     (if idx < lim then
        (if \<not> idx < num_priority_levels then Inl index_out_of_range
         else (case clients ! idx of
                 [] \<Rightarrow> scan_levels clients (Suc idx) lim
               | c # _ \<Rightarrow> Inr (Some c)))
      else Inr None)"
  by pat_completeness auto
termination
  by (relation "measure (\<lambda>(clients, idx, lim). lim - idx)") auto

definition select_next_client :: "thread_dispatcher \<Rightarrow> addr option \<Rightarrow> fault + addr option" where
  "select_next_client s hint =
     (case next_client_priority_level s hint of
        Inl f \<Rightarrow> Inl f
      | Inr lim \<Rightarrow>
          (case scan_levels (my_client_list s) 0 lim of
             Inl f \<Rightarrow> Inl f
           | Inr (Some c) \<Rightarrow> Inr (Some c)
           | Inr None \<Rightarrow> Inr hint))"

text \<open>
  The selector as the specification words it: among the buckets of the levels below
  \<open>start_level\<close>, taken in increasing order, the first client of the first bucket that
  is not empty; the hint when there is none.
\<close>

definition spec_select :: "addr list list \<Rightarrow> addr option \<Rightarrow> nat \<Rightarrow> addr option" where
  "spec_select buckets hint start_level =
     (case find (\<lambda>b. b \<noteq> []) (take start_level buckets) of
        None \<Rightarrow> hint
      | Some b \<Rightarrow> Some (hd b))"

subsection \<open>The intrusive lists\<close>

text \<open>
  Modelled from the spec: \<open>intrusive_list\<close> is declared in a header that is not among
  the sources. The specification says that a client is linked into one priority bucket at
  a time, or into none, and that a bucket keeps the order of insertion. A node is
  \<open>linked\<close> when some list holds it; \<open>push_front\<close> wants a node that is not linked,
  \<open>remove\<close> a node of the list it is called on.
\<close>

definition linked :: "addr list list \<Rightarrow> addr \<Rightarrow> bool" where
  "linked clients c = (\<exists>b \<in> set clients. c \<in> set b)"

definition push_front :: "addr list list \<Rightarrow> nat \<Rightarrow> addr \<Rightarrow> fault + addr list list" where
  "push_front clients lvl c =
     (if linked clients c then Inl assertion_failed
      else Inr (clients[lvl := c # clients ! lvl]))"

definition remove :: "addr list list \<Rightarrow> nat \<Rightarrow> addr \<Rightarrow> fault + addr list list" where
  "remove clients lvl c =
     (if c \<in> set (clients ! lvl) then Inr (clients[lvl := remove1 c (clients ! lvl)])
      else Inl assertion_failed)"

text \<open>
  \<open>++it\<close> for an iterator \<open>it\<close> that points to a node of the list \<open>b\<close>:
  \<open>Inr None\<close> is \<open>b.end()\<close>. An iterator that does not point into \<open>b\<close> never
  meets \<open>b.end()\<close>; the walk then leaves the nodes of clients.
\<close>

fun iterator_next :: "addr list \<Rightarrow> addr \<Rightarrow> fault + addr option" where
  "iterator_next [] it = Inl invalid_pointer"
| "iterator_next (x # xs) it =
     (if x = it then Inr (case xs of [] \<Rightarrow> None | y # _ \<Rightarrow> Some y)
      else iterator_next xs it)"

subsection \<open>Registration\<close>

text \<open>
  \<open>create_client\<close>: \<open>p\<close> is the address that \<open>cache_aligned_allocate\<close> returns,
  \<open>a\<close> what the arena answers to the client's queries; the client is stamped with
  the current value of \<open>my_clients_aba_epoch\<close>.
\<close>

definition create_client ::
  "thread_dispatcher \<Rightarrow> addr \<Rightarrow> thread_dispatcher_client \<Rightarrow> addr option \<times> thread_dispatcher" where
  "create_client s p a =
     (Some p, s\<lparr>storage := (storage s)(p \<mapsto> a\<lparr>aba_epoch := my_clients_aba_epoch s\<rparr>)\<rparr>)"

text \<open>
  The second assertion of \<open>insert_client\<close>:
  \<open>!my_next_client || my_next_client->priority_level() < num_priority_levels\<close>.
\<close>

definition next_client_in_range :: "thread_dispatcher \<Rightarrow> fault + unit" where
  "next_client_in_range s =
     (case my_next_client s of
        None \<Rightarrow> Inr ()
      | Some n \<Rightarrow>
          (case storage s n of
             None \<Rightarrow> Inl invalid_pointer
           | Some c \<Rightarrow>
               if priority_level c < num_priority_levels then Inr () else Inl assertion_failed))"

definition insert_client :: "thread_dispatcher \<Rightarrow> addr \<Rightarrow> fault + thread_dispatcher" where
  "insert_client s client =
     (case storage s client of
        None \<Rightarrow> Inl invalid_pointer
      | Some c \<Rightarrow>
          if \<not> priority_level c < num_priority_levels then Inl assertion_failed
          else
            (case push_front (my_client_list s) (priority_level c) client of
               Inl f \<Rightarrow> Inl f
             | Inr clients \<Rightarrow>
                 (case next_client_in_range s of
                    Inl f \<Rightarrow> Inl f
                  | Inr _ \<Rightarrow>
                      (case select_next_client (s\<lparr>my_client_list := clients\<rparr>) (my_next_client s) of
                         Inl f \<Rightarrow> Inl f
                       | Inr n \<Rightarrow> Inr (s\<lparr>my_client_list := clients, my_next_client := n\<rparr>)))))"

definition register_client :: "thread_dispatcher \<Rightarrow> addr option \<Rightarrow> fault + thread_dispatcher" where
  "register_client s client =
     (case client of
        None \<Rightarrow> Inl invalid_pointer
      | Some c \<Rightarrow> insert_client s c)"

definition remove_client :: "thread_dispatcher \<Rightarrow> addr \<Rightarrow> fault + thread_dispatcher" where
  "remove_client s client =
     (case storage s client of
        None \<Rightarrow> Inl invalid_pointer
      | Some c \<Rightarrow>
          if \<not> priority_level c < num_priority_levels then Inl assertion_failed
          else
            (case remove (my_client_list s) (priority_level c) client of
               Inl f \<Rightarrow> Inl f
             | Inr clients \<Rightarrow>
                 (case select_next_client (s\<lparr>my_client_list := clients\<rparr>)
                         (if my_next_client s = Some client then None else my_next_client s) of
                    Inl f \<Rightarrow> Inl f
                  | Inr n \<Rightarrow> Inr (s\<lparr>my_client_list := clients, my_next_client := n\<rparr>))))"

text \<open>
  The loop of \<open>try_unregister_client\<close> over \<open>my_client_list[priority]\<close>, from the
  iterator that has the nodes \<open>bucket\<close> still before it. On success the client is
  removed, the epoch counter is incremented and the storage of the client is freed.
  The function first asserts that \<open>client\<close> is not null and that \<open>my_server\<close>
  is not poisoned; only the destructor poisons it, and no state here is one after the
  destructor.
\<close>

fun try_unregister_loop ::
  "thread_dispatcher \<Rightarrow> addr \<Rightarrow> 64 word \<Rightarrow> addr list \<Rightarrow> fault + bool \<times> thread_dispatcher" where
  "try_unregister_loop s client epoch [] = Inr (False, s)"
| "try_unregister_loop s client epoch (x # xs) =
     (if client = x then
        (case storage s x of
           None \<Rightarrow> Inl invalid_pointer
         | Some c \<Rightarrow>
             if aba_epoch c = epoch \<and> references c = 0 \<and> num_workers_requested c = 0 then
               (case remove_client s client of
                  Inl f \<Rightarrow> Inl f
                | Inr s' \<Rightarrow>
                    Inr (True, s'\<lparr>my_clients_aba_epoch := my_clients_aba_epoch s' + 1,
                                  storage := (storage s')(client := None)\<rparr>))
             else Inr (False, s))
      else try_unregister_loop s client epoch xs)"

definition try_unregister_client ::
  "thread_dispatcher \<Rightarrow> addr option \<Rightarrow> 64 word \<Rightarrow> nat \<Rightarrow> fault + bool \<times> thread_dispatcher" where
  "try_unregister_client s client epoch priority =
     (case client of
        None \<Rightarrow> Inl assertion_failed
      | Some c \<Rightarrow>
          if \<not> priority < num_priority_levels then Inl index_out_of_range
          else try_unregister_loop s c epoch (my_client_list s ! priority))"

subsection \<open>Liveness of a client\<close>

text \<open>
  \<open>is_client_in_list\<close> asserts that its pointer is not null; its one caller has
  checked that, so the embedding takes the address.
\<close>

fun is_client_in_list :: "addr list \<Rightarrow> addr \<Rightarrow> bool" where
  "is_client_in_list [] client = False"
| "is_client_in_list (x # xs) client = (if client = x then True else is_client_in_list xs client)"

function is_client_alive_from :: "addr list list \<Rightarrow> addr \<Rightarrow> nat \<Rightarrow> bool" where
  "is_client_alive_from clients client idx =
     (if idx < num_priority_levels then
        (if is_client_in_list (clients ! idx) client then True
         else is_client_alive_from clients client (Suc idx))
      else False)"
  by pat_completeness auto
termination
  by (relation "measure (\<lambda>(clients, client, idx). num_priority_levels - idx)") auto

definition is_client_alive :: "thread_dispatcher \<Rightarrow> addr option \<Rightarrow> bool" where
  "is_client_alive s client =
     (case client of
        None \<Rightarrow> False
      | Some c \<Rightarrow> is_client_alive_from (my_client_list s) c 0)"

subsection \<open>client\_in\_need\<close>

text \<open>
  Modelled from the spec: \<open>try_join\<close> belongs to the client (clients.h and the arena
  behind it, not among the sources). The specification models it as an atomic decrement
  of the pending worker demand that succeeds only from a demand greater than zero.
\<close>

definition try_join :: "thread_dispatcher \<Rightarrow> addr \<Rightarrow> fault + bool \<times> thread_dispatcher" where
  "try_join s t =
     (case storage s t of
        None \<Rightarrow> Inl invalid_pointer
      | Some c \<Rightarrow>
          if 0 < num_workers_requested c then
            Inr (True, s\<lparr>storage := (storage s)(t \<mapsto> c\<lparr>num_workers_requested := num_workers_requested c - 1\<rparr>)\<rparr>)
          else Inr (False, s))"

text \<open>
  The inner loop \<open>do { ++curr_priority_level %= num_priority_levels; }
  while (clients[curr_priority_level].empty())\<close>. It does not return when every bucket
  is empty, which is the value \<open>None\<close>. The level is an \<open>unsigned\<close> that is
  below \<open>num_priority_levels\<close> whenever the loop is entered, so the increment does
  not wrap.
\<close>

partial_function (option) next_nonempty_level :: "addr list list \<Rightarrow> nat \<Rightarrow> nat option" where
  "next_nonempty_level clients curr_priority_level =
     (if clients ! ((curr_priority_level + 1) mod num_priority_levels) = []
      then next_nonempty_level clients ((curr_priority_level + 1) mod num_priority_levels)
      else Some ((curr_priority_level + 1) mod num_priority_levels))"

declare next_nonempty_level.simps [code]

text \<open>
  The first statement of the body of the outer loop: \<open>++it\<close> and, at the end of the
  bucket, the move to the first node of the next bucket that is not empty. The result is
  the new iterator with the new \<open>curr_priority_level\<close>.
\<close>

definition advance :: "addr list list \<Rightarrow> addr \<Rightarrow> nat \<Rightarrow> (fault + addr \<times> nat) option" where
  "advance clients it curr_priority_level =
     (case iterator_next (clients ! curr_priority_level) it of
        Inl f \<Rightarrow> Some (Inl f)
      | Inr (Some n) \<Rightarrow> Some (Inr (n, curr_priority_level))
      | Inr None \<Rightarrow>
          (case next_nonempty_level clients curr_priority_level of
             None \<Rightarrow> None
           | Some l \<Rightarrow>
               (case clients ! l of
                  [] \<Rightarrow> Some (Inl invalid_pointer)
                | c # _ \<Rightarrow> Some (Inr (c, l)))))"

text \<open>
  The outer \<open>do ... while (it != hint)\<close>. The list \<open>joins\<close> records the clients whose
  \<open>try_join\<close> has been called, in the order of the calls; it is returned with the
  client found and the state. \<open>None\<close> is a loop that does not return.
\<close>

partial_function (option) scan_clients ::
  "thread_dispatcher \<Rightarrow> addr \<Rightarrow> addr \<Rightarrow> nat \<Rightarrow> addr list \<Rightarrow>
     (fault + addr list \<times> addr option \<times> thread_dispatcher) option" where
  "scan_clients s hint it curr_priority_level joins =
     (case advance (my_client_list s) it curr_priority_level of
        None \<Rightarrow> None
      | Some (Inl f) \<Rightarrow> Some (Inl f)
      | Some (Inr (it', l')) \<Rightarrow>
          (case try_join s it of
             Inl f \<Rightarrow> Some (Inl f)
           | Inr (joined, s') \<Rightarrow>
               if joined then Some (Inr (joins @ [it], Some it, s'))
               else if it' \<noteq> hint then scan_clients s' hint it' l' (joins @ [it])
               else Some (Inr (joins @ [it], None, s'))))"

declare scan_clients.simps [code]

text \<open>
  \<open>client_in_need(clients, hint)\<close>; every caller passes \<open>my_client_list\<close> for
  \<open>clients\<close>. The assertion \<open>it != clients[curr_priority_level].end()\<close> holds for
  every pointer to a client, an end iterator being the list's own head node.
\<close>

definition client_in_need_hint ::
  "thread_dispatcher \<Rightarrow> addr option \<Rightarrow> (fault + addr list \<times> addr option \<times> thread_dispatcher) option" where
  "client_in_need_hint s hint =
     (case select_next_client s hint of
        Inl f \<Rightarrow> Some (Inl f)
      | Inr None \<Rightarrow> Some (Inr ([], None, s))
      | Inr (Some h) \<Rightarrow>
          (case storage s h of
             None \<Rightarrow> Some (Inl invalid_pointer)
           | Some c \<Rightarrow>
               if \<not> priority_level c < num_priority_levels then Some (Inl index_out_of_range)
               else scan_clients s h h (priority_level c) []))"

text \<open>\<open>client_in_need(prev)\<close>, the entry point of a worker.\<close>

definition client_in_need ::
  "thread_dispatcher \<Rightarrow> addr option \<Rightarrow> (fault + addr list \<times> addr option \<times> thread_dispatcher) option" where
  "client_in_need s prev =
     (if is_client_alive s prev then client_in_need_hint s prev
      else client_in_need_hint s (my_next_client s))"

text \<open>
  The demand the specification speaks of, read from the storage; an address with no client
  has none.
\<close>

definition pending_worker_demand :: "thread_dispatcher \<Rightarrow> addr \<Rightarrow> nat" where
  "pending_worker_demand s c =
     (case storage s c of None \<Rightarrow> 0 | Some cl \<Rightarrow> num_workers_requested cl)"

text \<open>
  A sequence of calls of \<open>client_in_need\<close>, one for each previous client given, each
  on the state the call before it left. The result lists, for every call that returned,
  the clients whose \<open>try_join\<close> it called and the client it returned; the sequence
  ends at the first call that does not return a client or \<open>nullptr\<close>.
\<close>

fun find_and_join_calls ::
  "thread_dispatcher \<Rightarrow> addr option list \<Rightarrow> (addr list \<times> addr option) list" where
  "find_and_join_calls s [] = []"
| "find_and_join_calls s (prev # prevs) =
     (case client_in_need s prev of
        Some (Inr (joins, r, s')) \<Rightarrow> (joins, r) # find_and_join_calls s' prevs
      | _ \<Rightarrow> [])"

text \<open>
  The scan as the specification words it. The order of the scan that starts at the client
  \<open>h\<close>: the clients of all buckets, bucket after bucket in the order of the levels,
  taken from \<open>h\<close> on and around to the client before \<open>h\<close>; that is, \<open>h\<close> and
  what follows it in its bucket, the buckets of the next levels cyclically, and last the
  clients that precede \<open>h\<close> in its bucket.
\<close>

definition spec_scan_order :: "addr list list \<Rightarrow> addr \<Rightarrow> addr list" where
  "spec_scan_order clients h =
     dropWhile (\<lambda>a. a \<noteq> h) (concat clients) @ takeWhile (\<lambda>a. a \<noteq> h) (concat clients)"

text \<open>
  The first client of a list whose \<open>try_join\<close> succeeds, with the clients asked up to
  and including it, and the state after the join; no client when every one declines.
\<close>

fun spec_first_to_join ::
  "thread_dispatcher \<Rightarrow> addr list \<Rightarrow> addr list \<Rightarrow> addr list \<times> addr option \<times> thread_dispatcher" where
  "spec_first_to_join s joins [] = (joins, None, s)"
| "spec_first_to_join s joins (a # as) =
     (case try_join s a of
        Inr (True, s') \<Rightarrow> (joins @ [a], Some a, s')
      | _ \<Rightarrow> spec_first_to_join s (joins @ [a]) as)"

subsection \<open>The worker loop\<close>

record thread_data =
  my_last_client :: "addr option"

datatype event = Process addr | Yield

text \<open>
  \<open>process\<close> calls into two things that are outside the dispatcher: the entry point
  \<open>client->process(td)\<close> of the client joined and \<open>yield()\<close>. Both are parameters
  here, each the change of the dispatcher's state that happens during the call (by the
  arena, or by the threads that run meanwhile). The trace lists the calls in order.

  The loop \<open>while ((client = client_in_need(client)))\<close>:
\<close>

partial_function (option) process_while ::
  "(addr \<Rightarrow> thread_dispatcher \<Rightarrow> thread_dispatcher) \<Rightarrow> thread_dispatcher \<Rightarrow> thread_data \<Rightarrow>
     addr option \<Rightarrow> event list \<Rightarrow> (fault + thread_dispatcher \<times> thread_data \<times> event list) option" where
  "process_while client_process s td client trace =
     (case client_in_need s client of
        None \<Rightarrow> None
      | Some (Inl f) \<Rightarrow> Some (Inl f)
      | Some (Inr (joins, None, s')) \<Rightarrow> Some (Inr (s', td, trace))
      | Some (Inr (joins, Some c, s')) \<Rightarrow>
          process_while client_process (client_process c s') (td\<lparr>my_last_client := Some c\<rparr>)
            (Some c) (trace @ [Process c]))"

declare process_while.simps [code]

text \<open>The loop \<open>for (int i = 0; i < 2; ++i)\<close>, entered at \<open>i\<close>.\<close>

function process_for ::
  "(addr \<Rightarrow> thread_dispatcher \<Rightarrow> thread_dispatcher) \<Rightarrow> (thread_dispatcher \<Rightarrow> thread_dispatcher) \<Rightarrow>
     nat \<Rightarrow> thread_dispatcher \<Rightarrow> thread_data \<Rightarrow> addr option \<Rightarrow> event list \<Rightarrow>
     (fault + thread_dispatcher \<times> thread_data \<times> event list) option" where
  "process_for client_process yield i s td client trace =
     (if i < 2 then
        (case process_while client_process s td client trace of
           None \<Rightarrow> None
         | Some (Inl f) \<Rightarrow> Some (Inl f)
         | Some (Inr (s', td', trace')) \<Rightarrow>
             if i = 0 then process_for client_process yield (Suc i) (yield s') td' None (trace' @ [Yield])
             else process_for client_process yield (Suc i) s' td' None trace')
      else Some (Inr (s, td, trace)))"
  by pat_completeness auto
termination
  by (relation "measure (\<lambda>(client_process, yield, i, s, td, client, trace). 2 - i)") auto

definition process ::
  "(addr \<Rightarrow> thread_dispatcher \<Rightarrow> thread_dispatcher) \<Rightarrow> (thread_dispatcher \<Rightarrow> thread_dispatcher) \<Rightarrow>
     thread_dispatcher \<Rightarrow> thread_data \<Rightarrow> (fault + thread_dispatcher \<times> thread_data \<times> event list) option" where
  "process client_process yield s td =
     process_for client_process yield 0 s td (my_last_client td) []"

declare process_for.simps [simp del]

text \<open>
  A pass as the specification words it: \<open>find_and_join\<close> is called again and again,
  each client it returns is run, and the pass ends with the first call that finds no
  client. \<open>spec_pass client_process s client cs\<close> is the state at the end of a pass
  that starts in \<open>s\<close> with the previous client \<open>client\<close> and joins exactly the
  clients \<open>cs\<close>, in this order; it is \<open>None\<close> when no pass from there joins
  exactly these.
\<close>

fun spec_pass ::
  "(addr \<Rightarrow> thread_dispatcher \<Rightarrow> thread_dispatcher) \<Rightarrow> thread_dispatcher \<Rightarrow> addr option \<Rightarrow>
     addr list \<Rightarrow> thread_dispatcher option" where
  "spec_pass client_process s client [] =
     (case client_in_need s client of
        Some (Inr (joins, None, s')) \<Rightarrow> Some s'
      | _ \<Rightarrow> None)"
| "spec_pass client_process s client (c # cs) =
     (case client_in_need s client of
        Some (Inr (joins, Some c', s')) \<Rightarrow>
          if c' = c then spec_pass client_process (client_process c s') (Some c) cs else None
      | _ \<Rightarrow> None)"

subsection \<open>Demand accounting\<close>

definition adjust_job_count_estimate :: "thread_dispatcher \<Rightarrow> 32 word \<Rightarrow> thread_dispatcher" where
  "adjust_job_count_estimate s delta =
     (if delta \<noteq> 0 then s\<lparr>my_server := my_server s @ [delta]\<rparr> else s)"

subsection \<open>The invariant of the registry\<close>

text \<open>
  What the code keeps true of the registry between calls: the array has its
  \<open>num_priority_levels\<close> lists; a node is in a list once; every client of bucket
  \<open>i\<close> is an object in the storage with priority level \<open>i\<close> (so no client is in
  two buckets); and the cursor \<open>my_next_client\<close> is null or a client that
  \<open>is_client_alive\<close> finds.
\<close>

definition registry_ok :: "thread_dispatcher \<Rightarrow> bool" where
  "registry_ok s \<longleftrightarrow>
     length (my_client_list s) = num_priority_levels \<and>
     (\<forall>i < num_priority_levels.
        distinct (my_client_list s ! i) \<and>
        (\<forall>a \<in> set (my_client_list s ! i). \<exists>c. storage s a = Some c \<and> priority_level c = i)) \<and>
     (my_next_client s = None \<or> is_client_alive s (my_next_client s))"

text \<open>
  Two states with the same lists, the same cursor and the same priority level for every
  address: what the invariant reads of a state.
\<close>

definition same_registry :: "thread_dispatcher \<Rightarrow> thread_dispatcher \<Rightarrow> bool" where
  "same_registry s s' \<longleftrightarrow>
     my_client_list s' = my_client_list s \<and> my_next_client s' = my_next_client s \<and>
     (\<forall>a. map_option priority_level (storage s' a) = map_option priority_level (storage s a))"

declare scan_levels.simps [simp del] is_client_alive_from.simps [simp del]

subsection \<open>States used as examples\<close>

definition client_A :: thread_dispatcher_client where
  "client_A = \<lparr>priority_level = 0, aba_epoch = 0, references = 0, num_workers_requested = 2\<rparr>"

definition client_B :: thread_dispatcher_client where
  "client_B = \<lparr>priority_level = 1, aba_epoch = 0, references = 0, num_workers_requested = 1\<rparr>"

definition client_C :: thread_dispatcher_client where
  "client_C = \<lparr>priority_level = 2, aba_epoch = 0, references = 0, num_workers_requested = 0\<rparr>"

text \<open>A dispatcher with no client, and the clients A, B and C created at 10, 20 and 30.\<close>

definition no_clients :: thread_dispatcher where
  "no_clients =
     \<lparr>storage = [10 \<mapsto> client_A, 20 \<mapsto> client_B, 30 \<mapsto> client_C],
      my_client_list = [[], [], []], my_next_client = None,
      my_clients_aba_epoch = 0, my_server = []\<rparr>"

text \<open>B and C registered, A not; the cursor is at B.\<close>

definition clients_B_C :: thread_dispatcher where
  "clients_B_C = no_clients\<lparr>my_client_list := [[], [20], [30]], my_next_client := Some 20\<rparr>"

text \<open>
  Two clients at level 0, the one at 11 registered after the one at 10; the cursor is at
  the front of the bucket.
\<close>

definition two_at_level_0 :: thread_dispatcher where
  "two_at_level_0 =
     \<lparr>storage = [10 \<mapsto> client_A, 11 \<mapsto> client_A], my_client_list = [[11, 10], [], []],
      my_next_client = Some 11, my_clients_aba_epoch = 0, my_server = []\<rparr>"

text \<open>
  A client X of priority level 1 with no reference and no demand; a dispatcher that has
  created nothing yet; the dispatcher after X has been created at address 40 and
  registered; and the dispatcher after that client has been unregistered and a second
  client has been created at the same address and registered: the second client carries
  epoch 1 where the first carried epoch 0.
\<close>

definition arena_X :: thread_dispatcher_client where
  "arena_X = \<lparr>priority_level = 1, aba_epoch = 0, references = 0, num_workers_requested = 0\<rparr>"

definition fresh_dispatcher :: thread_dispatcher where
  "fresh_dispatcher =
     \<lparr>storage = Map.empty, my_client_list = [[], [], []], my_next_client = None,
      my_clients_aba_epoch = 0, my_server = []\<rparr>"

definition registered_X :: thread_dispatcher where
  "registered_X =
     \<lparr>storage = [40 \<mapsto> arena_X], my_client_list = [[], [40], []], my_next_client = Some 40,
      my_clients_aba_epoch = 0, my_server = []\<rparr>"

definition reused_slot :: thread_dispatcher where
  "reused_slot =
     \<lparr>storage = [40 \<mapsto> arena_X\<lparr>aba_epoch := 1\<rparr>], my_client_list = [[], [40], []],
      my_next_client = Some 40, my_clients_aba_epoch = 1, my_server = []\<rparr>"

text \<open>A, B and C registered, in this order.\<close>

definition three_clients :: thread_dispatcher where
  "three_clients = no_clients\<lparr>my_client_list := [[10], [20], [30]], my_next_client := Some 10\<rparr>"

text \<open>
  For the worker loop: a client whose \<open>process\<close> leaves the dispatcher as it is, a
  yield during which another thread raises the demand of the client at address 40 to
  one, and the data of a worker that has not served a client yet.
\<close>

definition no_effect :: "addr \<Rightarrow> thread_dispatcher \<Rightarrow> thread_dispatcher" where
  "no_effect c s = s"

definition demand_raised :: "thread_dispatcher \<Rightarrow> thread_dispatcher" where
  "demand_raised s = s\<lparr>storage := (storage s)(40 \<mapsto> arena_X\<lparr>num_workers_requested := 1\<rparr>)\<rparr>"

definition new_worker :: thread_data where
  "new_worker = \<lparr>my_last_client = None\<rparr>"

section \<open>Properties\<close>

subsection \<open>The selector\<close>

lemma scan_levels_find:
  assumes "length clients = num_priority_levels" and "lim \<le> num_priority_levels"
  shows "scan_levels clients idx lim =
           Inr (case find (\<lambda>b. b \<noteq> []) (drop idx (take lim clients)) of
                  None \<Rightarrow> None
                | Some b \<Rightarrow> Some (hd b))"
  using assms
proof (induction clients idx lim rule: scan_levels.induct)
  case (1 clients idx lim)
  show ?case
  proof (cases "idx < lim")
    case False
    then show ?thesis by (simp add: scan_levels.simps [of clients idx lim])
  next
    case True
    with "1.prems" have in_range: "idx < num_priority_levels" "idx < length (take lim clients)"
      by simp_all
    have unfold_drop: "drop idx (take lim clients) = clients ! idx # drop (Suc idx) (take lim clients)"
      using in_range(2) True Cons_nth_drop_Suc [of idx "take lim clients"] by simp
    show ?thesis
    proof (cases "clients ! idx")
      case Nil
      with True in_range "1.IH" "1.prems" unfold_drop show ?thesis
        by (simp add: scan_levels.simps [of clients idx lim])
    next
      case (Cons c cs)
      with True in_range unfold_drop show ?thesis
        by (simp add: scan_levels.simps [of clients idx lim])
    qed
  qed
qed

text \<open>
  C1. \<open>select_next_client\<close> looks at the buckets in increasing order of the index:
  at all three levels when the hint is null, and at the levels below the priority level
  of the hint when the hint points to a client object. It returns the first client of
  the first of these buckets that is not empty, and the hint itself when all of them are
  empty; so it returns \<open>nullptr\<close> for a null hint when every bucket is empty. The
  range is the one of the loop \<open>idx < next_client_priority_level\<close>: the bucket of
  the hint's own level is not looked at.
\<close>

theorem select_next_client_scan:
  assumes "length (my_client_list s) = num_priority_levels"
  shows "num_priority_levels = 3 \<and>
         select_next_client s None = Inr (spec_select (my_client_list s) None 3) \<and>
         (\<forall>h c. storage s h = Some c \<and> priority_level c \<le> 3 \<longrightarrow>
            select_next_client s (Some h) =
              Inr (spec_select (my_client_list s) (Some h) (priority_level c))) \<and>
         ((\<forall>b \<in> set (my_client_list s). b = []) \<longrightarrow> select_next_client s None = Inr None)"
proof -
  have levels: "num_priority_levels = 3" by (simp add: num_priority_levels_def)
  have scan: "scan_levels (my_client_list s) 0 lim =
          Inr (case find (\<lambda>b. b \<noteq> []) (take lim (my_client_list s)) of
                 None \<Rightarrow> None
               | Some b \<Rightarrow> Some (hd b))"
    if "lim \<le> num_priority_levels" for lim
    using scan_levels_find [OF assms that, of 0] by simp
  have null: "select_next_client s None = Inr (spec_select (my_client_list s) None 3)"
    using scan [of num_priority_levels]
    by (simp add: select_next_client_def next_client_priority_level_def spec_select_def levels
          split: option.splits)
  have hint: "select_next_client s (Some h) =
              Inr (spec_select (my_client_list s) (Some h) (priority_level c))"
    if "storage s h = Some c" "priority_level c \<le> 3" for h and c :: thread_dispatcher_client
    using that scan [of "priority_level c"]
    by (simp add: select_next_client_def next_client_priority_level_def spec_select_def levels
          split: option.splits)
  have empty: "select_next_client s None = Inr None" if "\<forall>b \<in> set (my_client_list s). b = []"
  proof -
    from that have "find (\<lambda>b. b \<noteq> []) (take 3 (my_client_list s)) = None"
      by (auto simp: find_None_iff dest: in_set_takeD)
    with null show ?thesis by (simp add: spec_select_def)
  qed
  from levels null hint empty show ?thesis by blast
qed

theorem select_next_client_scan_witness:
  "length (my_client_list clients_B_C) = num_priority_levels \<and>
   storage clients_B_C 30 = Some client_C \<and> priority_level client_C = 2 \<and>
   select_next_client clients_B_C (Some 30) = Inr (Some 20) \<and>
   select_next_client clients_B_C None = Inr (Some 20) \<and>
   length (my_client_list two_at_level_0) = num_priority_levels \<and>
   storage two_at_level_0 10 = Some client_A \<and> priority_level client_A = 0 \<and>
   select_next_client two_at_level_0 (Some 10) = Inr (Some 10) \<and>
   select_next_client two_at_level_0 None = Inr (Some 11) \<and>
   my_client_list fresh_dispatcher = [[], [], []] \<and>
   select_next_client fresh_dispatcher None = Inr None"
proof -
  have len: "length (my_client_list clients_B_C) = num_priority_levels"
    "length (my_client_list two_at_level_0) = num_priority_levels"
    "length (my_client_list fresh_dispatcher) = num_priority_levels"
    by (simp_all add: clients_B_C_def no_clients_def two_at_level_0_def fresh_dispatcher_def
          num_priority_levels_def)
  have c: "storage clients_B_C 30 = Some client_C" "priority_level client_C = 2"
    by (simp_all add: clients_B_C_def no_clients_def client_C_def)
  have a: "storage two_at_level_0 10 = Some client_A" "priority_level client_A = 0"
    by (simp_all add: two_at_level_0_def client_A_def)
  have none: "\<forall>b \<in> set (my_client_list fresh_dispatcher). b = []"
    by (simp add: fresh_dispatcher_def)
  have r1: "select_next_client clients_B_C (Some 30) = Inr (Some 20)"
    "select_next_client clients_B_C None = Inr (Some 20)"
  proof -
    from select_next_client_scan [OF len(1)] c
    have "select_next_client clients_B_C (Some 30) =
            Inr (spec_select (my_client_list clients_B_C) (Some 30) (priority_level client_C))"
      and "select_next_client clients_B_C None = Inr (spec_select (my_client_list clients_B_C) None 3)"
      by force+
    then show "select_next_client clients_B_C (Some 30) = Inr (Some 20)"
      and "select_next_client clients_B_C None = Inr (Some 20)"
      by (simp_all add: c(2) spec_select_def clients_B_C_def no_clients_def)
  qed
  have r2: "select_next_client two_at_level_0 (Some 10) = Inr (Some 10)"
    "select_next_client two_at_level_0 None = Inr (Some 11)"
  proof -
    from select_next_client_scan [OF len(2)] a
    have "select_next_client two_at_level_0 (Some 10) =
            Inr (spec_select (my_client_list two_at_level_0) (Some 10) (priority_level client_A))"
      and "select_next_client two_at_level_0 None = Inr (spec_select (my_client_list two_at_level_0) None 3)"
      by force+
    then show "select_next_client two_at_level_0 (Some 10) = Inr (Some 10)"
      and "select_next_client two_at_level_0 None = Inr (Some 11)"
      by (simp_all add: a(2) spec_select_def two_at_level_0_def)
  qed
  from select_next_client_scan [OF len(3)] none
  have r3: "select_next_client fresh_dispatcher None = Inr None"
    by blast
  have lists: "my_client_list fresh_dispatcher = [[], [], []]"
    by (simp add: fresh_dispatcher_def)
  from len c a lists r1 r2 r3 show ?thesis by blast
qed

subsection \<open>Liveness, and what the selector can return\<close>

lemma is_client_in_list_iff: "is_client_in_list xs c \<longleftrightarrow> c \<in> set xs"
  by (induction xs) auto

lemma is_client_alive_from_iff:
  "is_client_alive_from clients c idx \<longleftrightarrow>
     (\<exists>i. idx \<le> i \<and> i < num_priority_levels \<and> c \<in> set (clients ! i))"
proof (induction clients c idx rule: is_client_alive_from.induct)
  case (1 clients c idx)
  show ?case
  proof (cases "idx < num_priority_levels")
    case False
    then show ?thesis by (auto simp: is_client_alive_from.simps [of clients c idx])
  next
    case True
    show ?thesis
    proof (cases "c \<in> set (clients ! idx)")
      case True
      with \<open>idx < num_priority_levels\<close> show ?thesis
        by (auto simp: is_client_in_list_iff is_client_alive_from.simps [of clients c idx])
    next
      case False
      with \<open>idx < num_priority_levels\<close> "1.IH"
      have "is_client_alive_from clients c idx \<longleftrightarrow>
              (\<exists>i. Suc idx \<le> i \<and> i < num_priority_levels \<and> c \<in> set (clients ! i))"
        by (simp add: is_client_in_list_iff is_client_alive_from.simps [of clients c idx])
      also have "\<dots> \<longleftrightarrow> (\<exists>i. idx \<le> i \<and> i < num_priority_levels \<and> c \<in> set (clients ! i))"
        using False by (metis Suc_leD Suc_leI le_neq_implies_less)
      finally show ?thesis .
    qed
  qed
qed

lemma is_client_alive_iff:
  "is_client_alive s (Some c) \<longleftrightarrow> (\<exists>i < num_priority_levels. c \<in> set (my_client_list s ! i))"
  by (simp add: is_client_alive_def is_client_alive_from_iff)

lemma linked_iff:
  "length clients = num_priority_levels \<Longrightarrow>
     linked clients c \<longleftrightarrow> (\<exists>i < num_priority_levels. c \<in> set (clients ! i))"
  unfolding linked_def by (metis in_set_conv_nth)

lemma scan_levels_total:
  "lim \<le> num_priority_levels \<Longrightarrow> \<exists>r. scan_levels clients idx lim = Inr r"
proof (induction clients idx lim rule: scan_levels.induct)
  case (1 clients idx lim)
  then show ?case
    by (cases "clients ! idx") (auto simp: scan_levels.simps [of clients idx lim])
qed

lemma scan_levels_first:
  "scan_levels clients idx lim = Inr (Some c) \<Longrightarrow>
     \<exists>i < num_priority_levels. c \<in> set (clients ! i)"
proof (induction clients idx lim rule: scan_levels.induct)
  case (1 clients idx lim)
  show ?case
  proof (cases "clients ! idx")
    case Nil
    with "1.prems" "1.IH" show ?thesis
      by (auto simp: scan_levels.simps [of clients idx lim] split: if_splits)
  next
    case (Cons x xs)
    with "1.prems" have "idx < num_priority_levels" "c = x"
      by (auto simp: scan_levels.simps [of clients idx lim] split: if_splits)
    with Cons show ?thesis by (metis list.set_intros(1))
  qed
qed

lemma select_next_client_result:
  assumes "select_next_client s hint = Inr r"
  shows "r = hint \<or> is_client_alive s r"
proof (cases r)
  case None
  with assms show ?thesis
    by (auto simp: select_next_client_def split: sum.splits option.splits)
next
  case (Some c)
  with assms show ?thesis
    by (auto simp: select_next_client_def is_client_alive_iff
             split: sum.splits option.splits dest: scan_levels_first)
qed

lemma select_next_client_total:
  assumes "next_client_priority_level s hint = Inr lim" and "lim \<le> num_priority_levels"
  shows "\<exists>r. select_next_client s hint = Inr r"
proof -
  from assms(2) obtain r where "scan_levels (my_client_list s) 0 lim = Inr r"
    using scan_levels_total by blast
  with assms(1) show ?thesis
    by (cases r) (simp_all add: select_next_client_def)
qed

lemma registry_ok_cursor_level:
  assumes "registry_ok s"
  shows "\<exists>lim. next_client_priority_level s (my_next_client s) = Inr lim \<and> lim \<le> num_priority_levels"
proof (cases "my_next_client s")
  case None
  then show ?thesis by (simp add: next_client_priority_level_def)
next
  case (Some n)
  with assms obtain i where "i < num_priority_levels" "n \<in> set (my_client_list s ! i)"
    by (auto simp: registry_ok_def is_client_alive_iff)
  with assms obtain c where "storage s n = Some c" "priority_level c = i"
    by (auto simp: registry_ok_def)
  with Some \<open>i < num_priority_levels\<close> show ?thesis
    by (simp add: next_client_priority_level_def)
qed


lemma registry_ok_cursor:
  assumes "registry_ok s" and "my_next_client s = Some n"
  shows "\<exists>c. storage s n = Some c \<and> priority_level c < num_priority_levels \<and>
             n \<in> set (my_client_list s ! priority_level c)"
proof -
  from assms obtain i where i: "i < num_priority_levels" "n \<in> set (my_client_list s ! i)"
    by (auto simp: registry_ok_def is_client_alive_iff)
  with assms(1) obtain c where "storage s n = Some c" "priority_level c = i"
    by (auto simp: registry_ok_def)
  with i show ?thesis by simp
qed

lemma registry_ok_cursor_in_range:
  assumes "registry_ok s"
  shows "next_client_in_range s = Inr ()"
proof (cases "my_next_client s")
  case None
  then show ?thesis by (simp add: next_client_in_range_def)
next
  case (Some n)
  with registry_ok_cursor [OF assms Some] show ?thesis
    by (auto simp: next_client_in_range_def)
qed

lemma next_client_priority_level_lists:
  "next_client_priority_level (s\<lparr>my_client_list := clients\<rparr>) hint = next_client_priority_level s hint"
  by (simp add: next_client_priority_level_def cong: option.case_cong)

lemma insert_client_ok:
  assumes ok: "registry_ok s"
    and c: "storage s client = Some c" "priority_level c < num_priority_levels"
    and fresh: "\<not> linked (my_client_list s) client"
  shows "\<exists>n. select_next_client
               (s\<lparr>my_client_list := (my_client_list s)[priority_level c := client # my_client_list s ! priority_level c]\<rparr>)
               (my_next_client s) = Inr n \<and>
             insert_client s client =
               Inr (s\<lparr>my_client_list := (my_client_list s)[priority_level c := client # my_client_list s ! priority_level c],
                      my_next_client := n\<rparr>) \<and>
             registry_ok
               (s\<lparr>my_client_list := (my_client_list s)[priority_level c := client # my_client_list s ! priority_level c],
                      my_next_client := n\<rparr>)"
proof -
  let ?p = "priority_level c"
  let ?cl = "(my_client_list s)[?p := client # my_client_list s ! ?p]"
  let ?s1 = "s\<lparr>my_client_list := ?cl\<rparr>"
  from ok have len: "length (my_client_list s) = num_priority_levels"
    by (simp add: registry_ok_def)
  from registry_ok_cursor_level [OF ok] obtain lim
    where lim: "next_client_priority_level s (my_next_client s) = Inr lim" "lim \<le> num_priority_levels"
    by blast
  from lim(1) have "next_client_priority_level ?s1 (my_next_client s) = Inr lim"
    by (simp add: next_client_priority_level_lists)
  with lim(2) obtain n where n: "select_next_client ?s1 (my_next_client s) = Inr n"
    using select_next_client_total by blast
  have ins: "insert_client s client = Inr (?s1\<lparr>my_next_client := n\<rparr>)"
    using c fresh n registry_ok_cursor_in_range [OF ok]
    by (simp add: insert_client_def push_front_def)
  have buckets: "distinct (?cl ! i) \<and> (\<forall>a \<in> set (?cl ! i). \<exists>c'. storage s a = Some c' \<and> priority_level c' = i)"
    if "i < num_priority_levels" for i
  proof (cases "i = ?p")
    case True
    from fresh len c(2) have "client \<notin> set (my_client_list s ! ?p)"
      by (auto simp: linked_iff)
    with True that ok c len show ?thesis
      by (auto simp: registry_ok_def)
  next
    case False
    with that ok show ?thesis by (simp add: registry_ok_def)
  qed
  have grows: "set (my_client_list s ! i) \<subseteq> set (?cl ! i)" if "i < num_priority_levels" for i
    using that len by (cases "i = ?p") auto
  have cursor: "n = None \<or> is_client_alive (?s1\<lparr>my_next_client := n\<rparr>) n"
  proof -
    from select_next_client_result [OF n]
    consider "n = my_next_client s" | "is_client_alive ?s1 n" by blast
    then show ?thesis
    proof cases
      case 1
      show ?thesis
      proof (cases n)
        case None
        then show ?thesis by simp
      next
        case (Some a)
        with 1 have "my_next_client s = Some a" by simp
        from registry_ok_cursor [OF ok this]
        obtain i where "i < num_priority_levels" "a \<in> set (my_client_list s ! i)"
          by blast
        with grows [of i] Some show ?thesis
          by (auto simp: is_client_alive_iff)
      qed
    next
      case 2
      then show ?thesis by (cases n) (auto simp: is_client_alive_iff)
    qed
  qed
  have "registry_ok (?s1\<lparr>my_next_client := n\<rparr>)"
    using len buckets cursor by (simp add: registry_ok_def)
  with n ins show ?thesis by simp
qed

subsection \<open>The invariant under insertion and removal\<close>

lemma registry_ok_length: "registry_ok s \<Longrightarrow> length (my_client_list s) = num_priority_levels"
  by (simp add: registry_ok_def)

lemma registry_ok_distinct:
  "registry_ok s \<Longrightarrow> i < num_priority_levels \<Longrightarrow> distinct (my_client_list s ! i)"
  by (simp add: registry_ok_def)

lemma registry_ok_bucket:
  "registry_ok s \<Longrightarrow> i < num_priority_levels \<Longrightarrow> a \<in> set (my_client_list s ! i) \<Longrightarrow>
     \<exists>c. storage s a = Some c \<and> priority_level c = i"
  unfolding registry_ok_def by blast

lemma is_client_alive_lists:
  "my_client_list s' = my_client_list s \<Longrightarrow> is_client_alive s' x = is_client_alive s x"
  by (cases x) (simp_all add: is_client_alive_def)

lemma remove_client_ok:
  assumes ok: "registry_ok s"
    and i: "i < num_priority_levels" "client \<in> set (my_client_list s ! i)"
  shows "\<exists>n. remove_client s client =
               Inr (s\<lparr>my_client_list := (my_client_list s)[i := remove1 client (my_client_list s ! i)],
                      my_next_client := n\<rparr>) \<and>
             registry_ok
               (s\<lparr>my_client_list := (my_client_list s)[i := remove1 client (my_client_list s ! i)],
                      my_next_client := n\<rparr>) \<and>
             n \<noteq> Some client \<and>
             (\<forall>j < num_priority_levels.
                client \<notin> set ((my_client_list s)[i := remove1 client (my_client_list s ! i)] ! j))"
proof -
  let ?cl = "(my_client_list s)[i := remove1 client (my_client_list s ! i)]"
  let ?s1 = "s\<lparr>my_client_list := ?cl\<rparr>"
  let ?hint = "if my_next_client s = Some client then None else my_next_client s"
  from ok have len: "length (my_client_list s) = num_priority_levels"
    by (simp add: registry_ok_def)
  from registry_ok_bucket [OF ok i] obtain c where c: "storage s client = Some c" "priority_level c = i"
    by blast
  have level: "j = i" if "j < num_priority_levels" "client \<in> set (my_client_list s ! j)" for j
    using registry_ok_bucket [OF ok that] c by auto
  have gone: "client \<notin> set (?cl ! j)" if "j < num_priority_levels" for j
  proof (cases "j = i")
    case True
    from ok i(1) have "distinct (my_client_list s ! i)" by (simp add: registry_ok_def)
    with True len i(1) show ?thesis by simp
  next
    case False
    with level [OF that] len show ?thesis by auto
  qed
  have kept: "a \<in> set (?cl ! j)"
    if "j < num_priority_levels" "a \<in> set (my_client_list s ! j)" "a \<noteq> client" for a j
    using that len by (cases "j = i") auto
  have buckets: "distinct (?cl ! j) \<and> (\<forall>a \<in> set (?cl ! j). \<exists>c'. storage s a = Some c' \<and> priority_level c' = j)"
    if "j < num_priority_levels" for j
  proof (cases "j = i")
    case True
    with that ok len show ?thesis
      by (auto simp: registry_ok_def dest: notin_set_remove1)
  next
    case False
    with that ok show ?thesis by (simp add: registry_ok_def)
  qed
  have "\<exists>lim. next_client_priority_level s ?hint = Inr lim \<and> lim \<le> num_priority_levels"
    using registry_ok_cursor_level [OF ok] by (simp add: next_client_priority_level_def)
  then obtain lim where "next_client_priority_level ?s1 ?hint = Inr lim" "lim \<le> num_priority_levels"
    by (auto simp: next_client_priority_level_lists)
  then obtain n where n: "select_next_client ?s1 ?hint = Inr n"
    using select_next_client_total by blast
  have rem: "remove_client s client = Inr (?s1\<lparr>my_next_client := n\<rparr>)"
    using c i n by (simp add: remove_client_def remove_def)
  have cursor: "n = None \<or> is_client_alive (?s1\<lparr>my_next_client := n\<rparr>) n"
  proof -
    from select_next_client_result [OF n]
    consider "n = ?hint" | "is_client_alive ?s1 n" by blast
    then show ?thesis
    proof cases
      case 1
      show ?thesis
      proof (cases n)
        case None
        then show ?thesis by simp
      next
        case (Some a)
        with 1 have a: "my_next_client s = Some a" "a \<noteq> client"
          by (auto split: if_splits)
        from registry_ok_cursor [OF ok a(1)]
        obtain j where "j < num_priority_levels" "a \<in> set (my_client_list s ! j)"
          by blast
        with kept [of j a] a(2) Some show ?thesis
          by (auto simp: is_client_alive_iff)
      qed
    next
      case 2
      then show ?thesis by (cases n) (auto simp: is_client_alive_iff)
    qed
  qed
  have not_client: "n \<noteq> Some client"
  proof
    assume "n = Some client"
    with cursor have "is_client_alive ?s1 (Some client)"
      by (simp add: is_client_alive_iff)
    with gone show False by (auto simp: is_client_alive_iff)
  qed
  have "registry_ok (?s1\<lparr>my_next_client := n\<rparr>)"
    using len buckets cursor by (simp add: registry_ok_def)
  with rem not_client gone show ?thesis by auto
qed

lemma try_unregister_loop_found:
  "try_unregister_loop s client epoch xs =
     (if client \<in> set xs then
        (case storage s client of
           None \<Rightarrow> Inl invalid_pointer
         | Some c \<Rightarrow>
             if aba_epoch c = epoch \<and> references c = 0 \<and> num_workers_requested c = 0 then
               (case remove_client s client of
                  Inl f \<Rightarrow> Inl f
                | Inr s' \<Rightarrow>
                    Inr (True, s'\<lparr>my_clients_aba_epoch := my_clients_aba_epoch s' + 1,
                                  storage := (storage s')(client := None)\<rparr>))
             else Inr (False, s))
      else Inr (False, s))"
  by (induction xs) auto

lemma registry_ok_freed:
  assumes "registry_ok s" and "\<forall>j < num_priority_levels. client \<notin> set (my_client_list s ! j)"
  shows "registry_ok (s\<lparr>my_clients_aba_epoch := e, storage := (storage s)(client := None)\<rparr>)"
proof -
  let ?s' = "s\<lparr>my_clients_aba_epoch := e, storage := (storage s)(client := None)\<rparr>"
  have lists: "my_client_list ?s' = my_client_list s" by simp
  have "\<exists>c. storage ?s' a = Some c \<and> priority_level c = i"
    if "i < num_priority_levels" "a \<in> set (my_client_list s ! i)" for i a
  proof -
    from assms(2) that have "a \<noteq> client" by auto
    with registry_ok_bucket [OF assms(1) that] show ?thesis by simp
  qed
  moreover have "my_next_client ?s' = None \<or> is_client_alive ?s' (my_next_client ?s')"
    using assms(1) is_client_alive_lists [OF lists] by (simp add: registry_ok_def)
  ultimately show ?thesis
    using registry_ok_length [OF assms(1)] registry_ok_distinct [OF assms(1)]
    unfolding registry_ok_def lists by blast
qed


lemmas example_defs =
  client_A_def client_B_def client_C_def no_clients_def clients_B_C_def
  arena_X_def fresh_dispatcher_def registered_X_def reused_slot_def

lemmas eval_defs =
  num_priority_levels_def next_client_priority_level_def select_next_client_def
  scan_levels.simps is_client_alive_def is_client_alive_from.simps
  linked_def push_front_def remove_def next_client_in_range_def
  insert_client_def register_client_def remove_client_def try_unregister_client_def
  create_client_def

lemma registry_ok_examples:
  "registry_ok no_clients" "registry_ok clients_B_C" "registry_ok fresh_dispatcher"
  "registry_ok registered_X" "registry_ok reused_slot"
  by (simp_all add: registry_ok_def example_defs eval_defs All_less_Suc eval_nat_numeral)

lemma registered_X_history:
  "register_client (snd (create_client fresh_dispatcher 40 arena_X)) (Some 40) = Inr registered_X"
  by (simp add: example_defs eval_defs)

lemma reused_slot_history:
  "\<exists>s. try_unregister_client registered_X (Some 40) 0 1 = Inr (True, s) \<and>
       register_client (snd (create_client s 40 arena_X)) (Some 40) = Inr reused_slot"
  by (simp add: example_defs eval_defs)

subsection \<open>Unregistering\<close>

text \<open>
  C2. In a registry that satisfies the invariant, \<open>try_unregister_client\<close> called with
  a client, an epoch and a priority level below \<open>num_priority_levels\<close> returns, and it
  returns true exactly when the client is in the bucket of that priority, its stored
  epoch is the epoch given, and its references and its requested workers are both zero.
  When it returns true the client has been removed from the bucket and is in no bucket,
  the epoch counter of the registry has been incremented and the storage of the client
  has been freed. When it returns false the state is the state before the call.
\<close>

theorem try_unregister_client_result:
  assumes "registry_ok s" and "priority < num_priority_levels"
  shows "\<exists>b s'. try_unregister_client s (Some client) epoch priority = Inr (b, s') \<and>
           (b \<longleftrightarrow> client \<in> set (my_client_list s ! priority) \<and>
                  (\<exists>c. storage s client = Some c \<and> aba_epoch c = epoch \<and>
                       references c = 0 \<and> num_workers_requested c = 0)) \<and>
           (b \<longrightarrow> my_client_list s' = (my_client_list s)[priority := remove1 client (my_client_list s ! priority)] \<and>
                  \<not> is_client_alive s' (Some client) \<and>
                  my_clients_aba_epoch s' = my_clients_aba_epoch s + 1 \<and>
                  storage s' = (storage s)(client := None)) \<and>
           (\<not> b \<longrightarrow> s' = s)"
proof (cases "client \<in> set (my_client_list s ! priority)")
  case False
  with assms(2) show ?thesis
    by (auto simp: try_unregister_client_def try_unregister_loop_found)
next
  case True
  from registry_ok_bucket [OF assms True]
  obtain c where c: "storage s client = Some c" "priority_level c = priority" by blast
  show ?thesis
  proof (cases "aba_epoch c = epoch \<and> references c = 0 \<and> num_workers_requested c = 0")
    case False
    with True assms(2) c show ?thesis
      by (auto simp: try_unregister_client_def try_unregister_loop_found)
  next
    case abandoned: True
    let ?cl = "(my_client_list s)[priority := remove1 client (my_client_list s ! priority)]"
    from remove_client_ok [OF assms True]
    obtain n where n: "remove_client s client = Inr (s\<lparr>my_client_list := ?cl, my_next_client := n\<rparr>)"
      and gone: "\<forall>j < num_priority_levels. client \<notin> set (?cl ! j)"
      by blast
    let ?s' = "s\<lparr>my_client_list := ?cl, my_next_client := n,
                 my_clients_aba_epoch := my_clients_aba_epoch s + 1,
                 storage := (storage s)(client := None)\<rparr>"
    have "try_unregister_client s (Some client) epoch priority = Inr (True, ?s')"
      using True assms(2) c abandoned n
      by (simp add: try_unregister_client_def try_unregister_loop_found)
    moreover have "\<not> is_client_alive ?s' (Some client)"
      using gone by (simp add: is_client_alive_iff)
    ultimately show ?thesis
      using True c abandoned by (intro exI [of _ True] exI [of _ ?s']) simp
  qed
qed

theorem try_unregister_client_result_witness:
  "registry_ok reused_slot \<and> 1 < num_priority_levels \<and>
   try_unregister_client reused_slot (Some 40) 0 1 = Inr (False, reused_slot) \<and>
   is_client_alive reused_slot (Some 40) \<and>
   (\<exists>s'. try_unregister_client reused_slot (Some 40) 1 1 = Inr (True, s') \<and>
         my_client_list s' = [[], [], []] \<and> my_clients_aba_epoch s' = 2 \<and> storage s' 40 = None)"
proof -
  have ok: "registry_ok reused_slot" by (rule registry_ok_examples)
  have lvl: "1 < num_priority_levels" by (simp add: num_priority_levels_def)
  from try_unregister_client_result [OF ok lvl, of 40 0]
  have stale: "try_unregister_client reused_slot (Some 40) 0 1 = Inr (False, reused_slot)"
    by (auto simp: reused_slot_def arena_X_def)
  from try_unregister_client_result [OF ok lvl, of 40 1]
  have same: "\<exists>s'. try_unregister_client reused_slot (Some 40) 1 1 = Inr (True, s') \<and>
         my_client_list s' = [[], [], []] \<and> my_clients_aba_epoch s' = 2 \<and> storage s' 40 = None"
    by (auto simp: reused_slot_def arena_X_def)
  have "is_client_alive reused_slot (Some 40)"
    by (simp add: reused_slot_def eval_defs)
  with ok lvl stale same show ?thesis by blast
qed


text \<open>
  C7. For a registered client X with no reference and no requested worker,
  \<open>try_unregister_client\<close> called with the epoch and the priority level of X returns
  true, and \<open>is_client_alive\<close> called on X afterwards returns false.
\<close>

theorem unregistered_client_not_alive:
  assumes "registry_ok s" and "is_client_alive s (Some x)"
    and "storage s x = Some c" and "references c = 0" and "num_workers_requested c = 0"
  shows "\<exists>s'. try_unregister_client s (Some x) (aba_epoch c) (priority_level c) = Inr (True, s') \<and>
              is_client_alive s' (Some x) = False"
proof -
  from assms(2) obtain i where i: "i < num_priority_levels" "x \<in> set (my_client_list s ! i)"
    by (auto simp: is_client_alive_iff)
  from registry_ok_bucket [OF assms(1) i] assms(3) have lvl: "priority_level c = i" by simp
  let ?cl = "(my_client_list s)[i := remove1 x (my_client_list s ! i)]"
  from remove_client_ok [OF assms(1) i]
  obtain n where n: "remove_client s x = Inr (s\<lparr>my_client_list := ?cl, my_next_client := n\<rparr>)"
    and gone: "\<forall>j < num_priority_levels. x \<notin> set (?cl ! j)"
    by blast
  let ?s' = "s\<lparr>my_client_list := ?cl, my_next_client := n,
               my_clients_aba_epoch := my_clients_aba_epoch s + 1,
               storage := (storage s)(x := None)\<rparr>"
  have "try_unregister_client s (Some x) (aba_epoch c) (priority_level c) = Inr (True, ?s')"
    using i lvl assms(3-5) n
    by (simp add: try_unregister_client_def try_unregister_loop_found)
  moreover have "is_client_alive ?s' (Some x) = False"
    using gone by (simp add: is_client_alive_iff)
  ultimately show ?thesis by blast
qed

theorem unregistered_client_not_alive_witness:
  "registry_ok registered_X \<and> is_client_alive registered_X (Some 40) \<and>
   storage registered_X 40 = Some arena_X \<and> references arena_X = 0 \<and>
   num_workers_requested arena_X = 0 \<and>
   (\<exists>s'. try_unregister_client registered_X (Some 40) 0 1 = Inr (True, s') \<and>
         is_client_alive s' (Some 40) = False \<and> my_client_list s' = [[], [], []])"
proof -
  have ok: "registry_ok registered_X" by (rule registry_ok_examples)
  have alive: "is_client_alive registered_X (Some 40)"
    by (simp add: registered_X_def eval_defs)
  have st: "storage registered_X 40 = Some arena_X" by (simp add: registered_X_def)
  have zero: "references arena_X = 0" "num_workers_requested arena_X = 0"
    by (simp_all add: arena_X_def)
  from unregistered_client_not_alive [OF ok alive st zero]
  obtain s' where s': "try_unregister_client registered_X (Some 40) (aba_epoch arena_X) (priority_level arena_X) = Inr (True, s')"
    "is_client_alive s' (Some 40) = False"
    by blast
  from s'(1) have run: "try_unregister_client registered_X (Some 40) 0 1 = Inr (True, s')"
    by (simp add: arena_X_def)
  then have "my_client_list s' = [[], [], []]"
    by (auto simp: registered_X_def arena_X_def eval_defs)
  with ok alive st zero run s'(2) show ?thesis by blast
qed

subsection \<open>Registering\<close>

text \<open>
  C8. \<open>register_client\<close> puts the client at the front of the bucket of its priority
  level, before the clients registered earlier, and then sets the cursor to what
  \<open>select_next_client\<close> returns for the cursor it had, in the registry with the new
  client. It does not fail: for a client object with a priority level in range that is
  not registered yet, in a registry that satisfies the invariant, the result is a state.
\<close>

theorem register_client_front:
  assumes "registry_ok s" and "storage s client = Some c"
    and "priority_level c < num_priority_levels" and "\<not> is_client_alive s (Some client)"
  shows "\<exists>n. select_next_client
               (s\<lparr>my_client_list := (my_client_list s)[priority_level c := client # my_client_list s ! priority_level c]\<rparr>)
               (my_next_client s) = Inr n \<and>
             register_client s (Some client) =
               Inr (s\<lparr>my_client_list := (my_client_list s)[priority_level c := client # my_client_list s ! priority_level c],
                      my_next_client := n\<rparr>)"
proof -
  from assms(1,4) have "\<not> linked (my_client_list s) client"
    by (simp add: linked_iff registry_ok_length is_client_alive_iff)
  from insert_client_ok [OF assms(1-3) this] show ?thesis
    by (auto simp: register_client_def)
qed

theorem register_client_front_witness:
  "registry_ok clients_B_C \<and> storage clients_B_C 10 = Some client_A \<and>
   priority_level client_A < num_priority_levels \<and> \<not> is_client_alive clients_B_C (Some 10) \<and>
   register_client clients_B_C (Some 10) =
     Inr (clients_B_C\<lparr>my_client_list := [[10], [20], [30]], my_next_client := Some 10\<rparr>)"
proof -
  have ok: "registry_ok clients_B_C" by (rule registry_ok_examples)
  have st: "storage clients_B_C 10 = Some client_A"
    by (simp add: clients_B_C_def no_clients_def)
  have lvl: "priority_level client_A < num_priority_levels"
    by (simp add: client_A_def num_priority_levels_def)
  have fresh: "\<not> is_client_alive clients_B_C (Some 10)"
    by (simp add: clients_B_C_def no_clients_def eval_defs)
  from register_client_front [OF ok st lvl fresh]
  have "register_client clients_B_C (Some 10) =
     Inr (clients_B_C\<lparr>my_client_list := [[10], [20], [30]], my_next_client := Some 10\<rparr>)"
    by (auto simp: clients_B_C_def no_clients_def client_A_def client_B_def client_C_def eval_defs)
  with ok st lvl fresh show ?thesis by blast
qed

subsection \<open>Demand accounting\<close>

text \<open>
  C9. \<open>adjust_job_count_estimate\<close> passes a delta that is not zero to the server, in
  one call, and changes nothing else; for the delta zero it makes no call and returns
  the state it was given.
\<close>

theorem adjust_job_count_estimate_forwards:
  "(delta \<noteq> 0 \<longrightarrow> adjust_job_count_estimate s delta = s\<lparr>my_server := my_server s @ [delta]\<rparr>) \<and>
   (delta = 0 \<longrightarrow> adjust_job_count_estimate s delta = s)"
  by (simp add: adjust_job_count_estimate_def)

theorem adjust_job_count_estimate_forwards_witness:
  "(2 :: 32 word) \<noteq> 0 \<and>
   my_server (adjust_job_count_estimate no_clients 2) = [2] \<and>
   my_server (adjust_job_count_estimate (adjust_job_count_estimate no_clients 2) (- 1)) = [2, - 1] \<and>
   adjust_job_count_estimate no_clients 0 = no_clients"
  using adjust_job_count_estimate_forwards [of 2 no_clients]
    adjust_job_count_estimate_forwards [of "- 1" "adjust_job_count_estimate no_clients 2"]
    adjust_job_count_estimate_forwards [of 0 no_clients]
  by (simp add: no_clients_def)

subsection \<open>The cursor\<close>

text \<open>
  C10. In a registry that satisfies the invariant, after \<open>insert_client\<close> and after
  \<open>remove_client\<close> the cursor \<open>my_next_client\<close> is null or a client that is in one
  of the buckets, and after \<open>remove_client\<close> it is not the client removed.
\<close>

theorem cursor_live_after_mutation:
  assumes "registry_ok s"
  shows "(\<forall>s'. insert_client s client = Inr s' \<longrightarrow>
               my_next_client s' = None \<or> is_client_alive s' (my_next_client s')) \<and>
         (\<forall>s'. remove_client s client = Inr s' \<longrightarrow>
               (my_next_client s' = None \<or> is_client_alive s' (my_next_client s')) \<and>
               my_next_client s' \<noteq> Some client)"
proof -
  have ins: "my_next_client s' = None \<or> is_client_alive s' (my_next_client s')"
    if run: "insert_client s client = Inr s'" for s'
  proof -
    from run obtain c where c: "storage s client = Some c" "priority_level c < num_priority_levels"
        "\<not> linked (my_client_list s) client"
      by (auto simp: insert_client_def push_front_def split: option.splits if_splits)
    from insert_client_ok [OF assms c] run have "registry_ok s'" by auto
    then show ?thesis by (simp add: registry_ok_def)
  qed
  have rem: "(my_next_client s' = None \<or> is_client_alive s' (my_next_client s')) \<and>
               my_next_client s' \<noteq> Some client"
    if run: "remove_client s client = Inr s'" for s'
  proof -
    from run obtain c where "storage s client = Some c"
      and c: "priority_level c < num_priority_levels"
        "client \<in> set (my_client_list s ! priority_level c)"
      by (auto simp: remove_client_def remove_def split: option.splits if_splits)
    from remove_client_ok [OF assms c]
    have "\<exists>n cl. remove_client s client = Inr (s\<lparr>my_client_list := cl, my_next_client := n\<rparr>) \<and>
            registry_ok (s\<lparr>my_client_list := cl, my_next_client := n\<rparr>) \<and> n \<noteq> Some client"
      by blast
    with run have "registry_ok s' \<and> my_next_client s' \<noteq> Some client" by auto
    then show ?thesis by (simp add: registry_ok_def)
  qed
  from ins rem show ?thesis by blast
qed

theorem cursor_live_after_mutation_witness:
  "registry_ok clients_B_C \<and>
   (\<exists>s'. insert_client clients_B_C 10 = Inr s' \<and> my_next_client s' = Some 10 \<and>
         is_client_alive s' (my_next_client s')) \<and>
   (\<exists>s'. remove_client clients_B_C 20 = Inr s' \<and> my_next_client s' = Some 30 \<and>
         is_client_alive s' (my_next_client s') \<and> \<not> is_client_alive s' (Some 20))"
proof -
  have ok: "registry_ok clients_B_C" by (rule registry_ok_examples)
  have ins: "insert_client clients_B_C 10 =
      Inr (clients_B_C\<lparr>my_client_list := [[10], [20], [30]], my_next_client := Some 10\<rparr>)"
    by (simp add: clients_B_C_def no_clients_def client_A_def client_B_def client_C_def eval_defs)
  have rem: "remove_client clients_B_C 20 =
      Inr (clients_B_C\<lparr>my_client_list := [[], [], [30]], my_next_client := Some 30\<rparr>)"
    by (simp add: clients_B_C_def no_clients_def client_A_def client_B_def client_C_def eval_defs)
  from cursor_live_after_mutation [OF ok, of 10] ins
  have a: "is_client_alive (clients_B_C\<lparr>my_client_list := [[10], [20], [30]], my_next_client := Some 10\<rparr>)
             (my_next_client (clients_B_C\<lparr>my_client_list := [[10], [20], [30]], my_next_client := Some 10\<rparr>))"
    by auto
  from cursor_live_after_mutation [OF ok, of 20] rem
  have b: "is_client_alive (clients_B_C\<lparr>my_client_list := [[], [], [30]], my_next_client := Some 30\<rparr>)
             (my_next_client (clients_B_C\<lparr>my_client_list := [[], [], [30]], my_next_client := Some 30\<rparr>))"
    by auto
  have c: "\<not> is_client_alive (clients_B_C\<lparr>my_client_list := [[], [], [30]], my_next_client := Some 30\<rparr>) (Some 20)"
    by (simp add: eval_defs)
  from ok ins rem a b c show ?thesis by simp
qed

subsection \<open>Joins and demand\<close>

lemma try_join_declined: "try_join s t = Inr (False, s') \<Longrightarrow> s' = s"
  by (auto simp: try_join_def split: option.splits if_splits)

lemma try_join_demand:
  assumes "try_join s t = Inr (True, s')"
  shows "0 < pending_worker_demand s t \<and>
         pending_worker_demand s' = (pending_worker_demand s)(t := pending_worker_demand s t - 1)"
  using assms
  by (auto simp: try_join_def pending_worker_demand_def fun_eq_iff split: option.splits if_splits)

lemma scan_clients_demand_aux:
  assumes run: "scan_clients s hint it lvl joins = Some y"
  shows "\<forall>joins' r s'. y = Inr (joins', r, s') \<longrightarrow>
       (case r of
          None \<Rightarrow> s' = s
        | Some a \<Rightarrow> 0 < pending_worker_demand s a \<and>
                    pending_worker_demand s' = (pending_worker_demand s)(a := pending_worker_demand s a - 1))"
proof (induct rule: scan_clients.raw_induct [OF _ run])
  case (1 scan s hint it lvl joins y)
  note IH = "1"(1) and body = "1"(2)
  from body have "\<exists>it' l' joined s1. advance (my_client_list s) it lvl = Some (Inr (it', l')) \<and>
      try_join s it = Inr (joined, s1) \<and>
      (if joined then Some (Inr (joins @ [it], Some it, s1))
                  else if it' \<noteq> hint then scan s1 hint it' l' (joins @ [it])
                  else Some (Inr (joins @ [it], None, s1))) = Some y \<or> (\<exists>f. y = Inl f)"
    by (auto split: option.splits sum.splits prod.splits split del: if_split)
  then consider f where "y = Inl f" | it' l' joined s1
    where "advance (my_client_list s) it lvl = Some (Inr (it', l'))"
      and "try_join s it = Inr (joined, s1)"
      and "(if joined then Some (Inr (joins @ [it], Some it, s1))
                  else if it' \<noteq> hint then scan s1 hint it' l' (joins @ [it])
                  else Some (Inr (joins @ [it], None, s1))) = Some y"
    by blast
  then show ?case
  proof cases
    case 1
    then show ?thesis by simp
  next
    case 2
    show ?thesis
    proof (cases joined)
      case True
      with 2 try_join_demand [of s it s1] show ?thesis by auto
    next
      case False
      with 2 have "s1 = s" by (simp add: try_join_declined)
      with False 2 IH [of s hint it' l' "joins @ [it]" y] show ?thesis
        by (auto split: if_splits)
    qed
  qed
qed

lemma client_in_need_demand:
  assumes "client_in_need s prev = Some (Inr (joins, r, s'))"
  shows "case r of
           None \<Rightarrow> s' = s
         | Some a \<Rightarrow> 0 < pending_worker_demand s a \<and>
                     pending_worker_demand s' = (pending_worker_demand s)(a := pending_worker_demand s a - 1)"
proof -
  have hint: "case r of
           None \<Rightarrow> s' = s
         | Some a \<Rightarrow> 0 < pending_worker_demand s a \<and>
                     pending_worker_demand s' = (pending_worker_demand s)(a := pending_worker_demand s a - 1)"
    if "client_in_need_hint s hint = Some (Inr (joins, r, s'))" for hint
    using that scan_clients_demand_aux [of s _ _ _ "[]" "Inr (joins, r, s')"]
    by (auto simp: client_in_need_hint_def split: sum.splits option.splits if_splits)
  from assms show ?thesis
    by (auto simp: client_in_need_def intro: hint split: if_splits)
qed

text \<open>
  C3. With \<open>try_join\<close> the atomic decrement of the pending demand that succeeds only
  from a demand greater than zero, in every sequence of calls of \<open>client_in_need\<close>,
  from every state and with every previous client, a client is returned at most as many
  times as its pending demand was at the start.
\<close>

theorem no_double_dispatch:
  "count_list (map snd (find_and_join_calls s prevs)) (Some c) \<le> pending_worker_demand s c"
proof (induction prevs arbitrary: s)
  case Nil
  show ?case by simp
next
  case (Cons prev prevs)
  show ?case
  proof (cases "client_in_need s prev")
    case None
    then show ?thesis by simp
  next
    case (Some y)
    show ?thesis
    proof (cases y)
      case (Inl f)
      with Some show ?thesis by simp
    next
      case (Inr res)
      obtain joins r s' where res: "res = (joins, r, s')" by (cases res)
      from client_in_need_demand [of s prev joins r s'] Some Inr res
      have step: "case r of
           None \<Rightarrow> s' = s
         | Some a \<Rightarrow> 0 < pending_worker_demand s a \<and>
                     pending_worker_demand s' = (pending_worker_demand s)(a := pending_worker_demand s a - 1)"
        by simp
      have calls: "find_and_join_calls s (prev # prevs) = (joins, r) # find_and_join_calls s' prevs"
        using Some Inr res by simp
      show ?thesis
      proof (cases "r = Some c")
        case True
        with step have "0 < pending_worker_demand s c"
          "pending_worker_demand s' c = pending_worker_demand s c - 1"
          by simp_all
        with Cons.IH [of s'] calls True show ?thesis by simp
      next
        case False
        with step have "pending_worker_demand s' c = pending_worker_demand s c"
          by (cases r) auto
        with Cons.IH [of s'] calls False show ?thesis by simp
      qed
    qed
  qed
qed


lemma three_clients_history:
  "\<exists>s1 s2. register_client no_clients (Some 10) = Inr s1 \<and>
           register_client s1 (Some 20) = Inr s2 \<and>
           register_client s2 (Some 30) = Inr three_clients"
  by (simp add: three_clients_def example_defs eval_defs)

text \<open>
  C4. With A at priority 0 and demand 2, B at priority 1 and demand 1 and C at priority 2
  and demand 0 registered (here at the addresses 10, 20 and 30, in this order), four calls of \<open>client_in_need\<close> with no previous client
  return A, A again, B, and then no client: the fourth call asks A, B and C in turn, each
  declines, and the scan is back at A.
\<close>

theorem three_clients_scenario:
  "(\<exists>s1 s2. register_client no_clients (Some 10) = Inr s1 \<and>
            register_client s1 (Some 20) = Inr s2 \<and>
            register_client s2 (Some 30) = Inr three_clients) \<and>
   find_and_join_calls three_clients [None, None, None, None] =
     [([10], Some 10), ([10], Some 10), ([10, 20], Some 20), ([10, 20, 30], None)]"
proof -
  have "find_and_join_calls three_clients [None, None, None, None] =
     [([10], Some 10), ([10], Some 10), ([10, 20], Some 20), ([10, 20, 30], None)]"
    by code_simp
  with three_clients_history show ?thesis by blast
qed

theorem no_double_dispatch_witness:
  "count_list (map snd (find_and_join_calls three_clients [None, None, None, None, None])) (Some 10) = 2 \<and>
   pending_worker_demand three_clients 10 = 2"
proof -
  have "pending_worker_demand three_clients 10 = 2"
    by (simp add: pending_worker_demand_def three_clients_def example_defs)
  moreover have "2 \<le> count_list (map snd (find_and_join_calls three_clients [None, None, None, None, None])) (Some 10)"
    by code_simp
  ultimately show ?thesis
    using no_double_dispatch [of three_clients "[None, None, None, None, None]" 10] by simp
qed

subsection \<open>The cyclic scan\<close>

lemma decomp_unique:
  "a \<notin> set xs \<Longrightarrow> a \<notin> set xs' \<Longrightarrow> xs @ a # ys = xs' @ a # ys' \<Longrightarrow> xs = xs' \<and> ys = ys'"
proof (induction xs arbitrary: xs')
  case Nil
  then show ?case by (cases xs') auto
next
  case (Cons x xs)
  then show ?case by (cases xs') auto
qed

lemma distinct_decomp_unique:
  assumes "distinct (xs @ a # ys)" and "xs @ a # ys = xs' @ a # ys'"
  shows "xs = xs' \<and> ys = ys'"
proof -
  from assms(1) have "a \<notin> set xs" by simp
  moreover from assms have "distinct (xs' @ a # ys')" by simp
  then have "a \<notin> set xs'" by simp
  ultimately show ?thesis using assms(2) by (rule decomp_unique)
qed

lemma iterator_next_decomp:
  "a \<notin> set pre \<Longrightarrow>
     iterator_next (pre @ a # suf) a = Inr (case suf of [] \<Rightarrow> None | y # _ \<Rightarrow> Some y)"
  by (induction pre) auto

lemma three_buckets:
  assumes "length clients = num_priority_levels"
  obtains b0 b1 b2 where "clients = [b0, b1, b2]"
proof -
  from assms have "length clients = Suc (Suc (Suc 0))"
    by (simp add: num_priority_levels_def)
  then show ?thesis
    using that by (auto simp: length_Suc_conv)
qed

lemma next_nonempty_level_0:
  "b0 \<noteq> [] \<or> b1 \<noteq> [] \<or> b2 \<noteq> [] \<Longrightarrow>
     next_nonempty_level [b0, b1, b2] 0 = Some (if b1 \<noteq> [] then 1 else if b2 \<noteq> [] then 2 else 0)"
  by (cases "b1 = []"; cases "b2 = []")
     (simp_all add: next_nonempty_level.simps num_priority_levels_def)

lemma next_nonempty_level_1:
  "b0 \<noteq> [] \<or> b1 \<noteq> [] \<or> b2 \<noteq> [] \<Longrightarrow>
     next_nonempty_level [b0, b1, b2] (Suc 0) = Some (if b2 \<noteq> [] then 2 else if b0 \<noteq> [] then 0 else 1)"
  by (cases "b2 = []"; cases "b0 = []")
     (simp_all add: next_nonempty_level.simps num_priority_levels_def)

lemma next_nonempty_level_2:
  "b0 \<noteq> [] \<or> b1 \<noteq> [] \<or> b2 \<noteq> [] \<Longrightarrow>
     next_nonempty_level [b0, b1, b2] 2 = Some (if b0 \<noteq> [] then 0 else if b1 \<noteq> [] then 1 else 2)"
  by (cases "b0 = []"; cases "b1 = []")
     (simp_all add: next_nonempty_level.simps num_priority_levels_def)


lemma advance_inside:
  "a \<notin> set p \<Longrightarrow> cl ! l = p @ a # y # q \<Longrightarrow> advance cl a l = Some (Inr (y, l))"
  by (simp add: advance_def iterator_next_decomp)

lemma advance_end_0:
  "a \<notin> set p \<Longrightarrow>
     advance [p @ [a], b1, b2] a 0 =
       Some (Inr (if b1 \<noteq> [] then (hd b1, 1) else if b2 \<noteq> [] then (hd b2, 2) else (hd (p @ [a]), 0)))"
  by (cases b1; cases b2; cases p)
     (simp_all add: advance_def iterator_next_decomp next_nonempty_level_0)

lemma advance_end_1:
  "a \<notin> set p \<Longrightarrow>
     advance [b0, p @ [a], b2] a (Suc 0) =
       Some (Inr (if b2 \<noteq> [] then (hd b2, 2) else if b0 \<noteq> [] then (hd b0, 0) else (hd (p @ [a]), 1)))"
  by (cases b2; cases b0; cases p)
     (simp_all add: advance_def iterator_next_decomp next_nonempty_level_1)

lemma advance_end_2:
  "a \<notin> set p \<Longrightarrow>
     advance [b0, b1, p @ [a]] a 2 =
       Some (Inr (if b0 \<noteq> [] then (hd b0, 0) else if b1 \<noteq> [] then (hd b1, 1) else (hd (p @ [a]), 2)))"
  by (cases b0; cases b1; cases p)
     (simp_all add: advance_def iterator_next_decomp next_nonempty_level_2)


lemma cyclic_successor:
  assumes "h # ys @ xs = done @ it # todo"
  shows "\<exists>us vs. xs @ h # ys = us @ it # vs \<and> hd (vs @ us @ [it]) = hd (todo @ [h])"
proof -
  from assms have "(h # ys) @ xs = done @ (it # todo)" by simp
  then obtain w where "h # ys = done @ w \<and> w @ xs = it # todo \<or> (h # ys) @ w = done \<and> xs = w @ it # todo"
    unfolding append_eq_append_conv2 by blast
  then consider (A) "h # ys = done @ w" "w @ xs = it # todo" | (B) "(h # ys) @ w = done" "xs = w @ it # todo"
    by blast
  then show ?thesis
  proof cases
    case A
    show ?thesis
    proof (cases w)
      case Nil
      with A have "xs @ h # ys = [] @ it # (todo @ h # ys)" by simp
      moreover have "hd ((todo @ h # ys) @ [] @ [it]) = hd (todo @ [h])" by (cases todo) simp_all
      ultimately show ?thesis by blast
    next
      case (Cons x w')
      with A have x: "x = it" and todo: "todo = w' @ xs" by simp_all
      from A Cons x have "xs @ h # ys = (xs @ done) @ it # w'" by simp
      moreover have "hd (w' @ (xs @ done) @ [it]) = hd (todo @ [h])"
      proof (cases "w' = [] \<and> xs = []")
        case True
        with A Cons x have "h # ys = done @ [it]" by simp
        then have "hd (done @ [it]) = h" by (metis list.sel(1))
        with True todo show ?thesis by simp
      next
        case False
        with todo show ?thesis by (cases w'; cases xs) simp_all
      qed
      ultimately show ?thesis by blast
    qed
  next
    case B
    then have "xs @ h # ys = w @ it # (todo @ h # ys)" by simp
    moreover have "hd ((todo @ h # ys) @ w @ [it]) = hd (todo @ [h])" by (cases todo) simp_all
    ultimately show ?thesis by blast
  qed
qed


lemma advance_cyclic_0:
  assumes dist: "distinct (concat [b0, b1, b2])"
    and pos: "concat [b0, b1, b2] = us @ a # vs"
    and lvl: "a \<in> set b0"
  shows "\<exists>l'. advance [b0, b1, b2] a 0 = Some (Inr (hd (vs @ us @ [a]), l')) \<and>
              l' < num_priority_levels \<and> hd (vs @ us @ [a]) \<in> set ([b0, b1, b2] ! l')"
proof -
  from lvl obtain p q where b0: "b0 = p @ a # q" by (auto dest: split_list)
  have d: "distinct (us @ a # vs)" using dist unfolding pos .
  have "us @ a # vs = p @ a # (q @ b1 @ b2)" unfolding pos [symmetric] b0 by simp
  from distinct_decomp_unique [OF d this] have uv: "us = p" "vs = q @ b1 @ b2" by simp_all
  from d uv have fresh: "a \<notin> set p" by simp
  show ?thesis
  proof (cases q)
    case (Cons y q')
    have "advance [b0, b1, b2] a 0 = Some (Inr (y, 0))"
      by (rule advance_inside [of a p _ _ y q']) (simp_all add: fresh b0 Cons)
    then show ?thesis
      unfolding uv Cons b0 by (simp add: num_priority_levels_def)
  next
    case Nil
    have adv: "advance [b0, b1, b2] a 0 =
        Some (Inr (if b1 \<noteq> [] then (hd b1, 1) else if b2 \<noteq> [] then (hd b2, 2) else (hd (p @ [a]), 0)))"
      unfolding b0 Nil by (rule advance_end_0 [OF fresh])
    show ?thesis
      unfolding adv uv Nil
      by (cases b1; cases b2; cases p) (simp_all add: num_priority_levels_def b0 Nil)
  qed
qed


lemma advance_cyclic_1:
  assumes dist: "distinct (concat [b0, b1, b2])"
    and pos: "concat [b0, b1, b2] = us @ a # vs"
    and lvl: "a \<in> set b1"
  shows "\<exists>l'. advance [b0, b1, b2] a (Suc 0) = Some (Inr (hd (vs @ us @ [a]), l')) \<and>
              l' < num_priority_levels \<and> hd (vs @ us @ [a]) \<in> set ([b0, b1, b2] ! l')"
proof -
  from lvl obtain p q where b1: "b1 = p @ a # q" by (auto dest: split_list)
  have d: "distinct (us @ a # vs)" using dist unfolding pos .
  have "us @ a # vs = (b0 @ p) @ a # (q @ b2)" unfolding pos [symmetric] b1 by simp
  from distinct_decomp_unique [OF d this] have uv: "us = b0 @ p" "vs = q @ b2" by simp_all
  from d uv have fresh: "a \<notin> set p" by simp
  show ?thesis
  proof (cases q)
    case (Cons y q')
    have "advance [b0, b1, b2] a (Suc 0) = Some (Inr (y, Suc 0))"
      by (rule advance_inside [of a p _ _ y q']) (simp_all add: fresh b1 Cons)
    then show ?thesis
      unfolding uv Cons b1 by (simp add: num_priority_levels_def)
  next
    case Nil
    have adv: "advance [b0, b1, b2] a (Suc 0) =
        Some (Inr (if b2 \<noteq> [] then (hd b2, 2) else if b0 \<noteq> [] then (hd b0, 0) else (hd (p @ [a]), 1)))"
      unfolding b1 Nil by (rule advance_end_1 [OF fresh])
    show ?thesis
      unfolding adv uv Nil
      by (cases b2; cases b0; cases p) (simp_all add: num_priority_levels_def b1 Nil)
  qed
qed

lemma advance_cyclic_2:
  assumes dist: "distinct (concat [b0, b1, b2])"
    and pos: "concat [b0, b1, b2] = us @ a # vs"
    and lvl: "a \<in> set b2"
  shows "\<exists>l'. advance [b0, b1, b2] a 2 = Some (Inr (hd (vs @ us @ [a]), l')) \<and>
              l' < num_priority_levels \<and> hd (vs @ us @ [a]) \<in> set ([b0, b1, b2] ! l')"
proof -
  from lvl obtain p q where b2: "b2 = p @ a # q" by (auto dest: split_list)
  have d: "distinct (us @ a # vs)" using dist unfolding pos .
  have "us @ a # vs = (b0 @ b1 @ p) @ a # q" unfolding pos [symmetric] b2 by simp
  from distinct_decomp_unique [OF d this] have uv: "us = b0 @ b1 @ p" "vs = q" by simp_all
  from d uv have fresh: "a \<notin> set p" by simp
  show ?thesis
  proof (cases q)
    case (Cons y q')
    have "advance [b0, b1, b2] a 2 = Some (Inr (y, 2))"
      by (rule advance_inside [of a p _ _ y q']) (simp_all add: fresh b2 Cons)
    then show ?thesis
      unfolding uv Cons b2 by (simp add: num_priority_levels_def)
  next
    case Nil
    have adv: "advance [b0, b1, b2] a 2 =
        Some (Inr (if b0 \<noteq> [] then (hd b0, 0) else if b1 \<noteq> [] then (hd b1, 1) else (hd (p @ [a]), 2)))"
      unfolding b2 Nil by (rule advance_end_2 [OF fresh])
    show ?thesis
      unfolding adv uv Nil
      by (cases b0; cases b1; cases p) (simp_all add: num_priority_levels_def b2 Nil)
  qed
qed

lemma advance_cyclic:
  assumes len: "length cl = num_priority_levels" and dist: "distinct (concat cl)"
    and pos: "concat cl = us @ a # vs"
    and lvl: "l < num_priority_levels" "a \<in> set (cl ! l)"
  shows "\<exists>l'. advance cl a l = Some (Inr (hd (vs @ us @ [a]), l')) \<and>
              l' < num_priority_levels \<and> hd (vs @ us @ [a]) \<in> set (cl ! l')"
proof -
  from three_buckets [OF len] obtain b0 b1 b2 where cl: "cl = [b0, b1, b2]" .
  from lvl(1) consider "l = 0" | "l = Suc 0" | "l = 2"
    unfolding num_priority_levels_def by arith
  then show ?thesis
  proof cases
    case 1
    with lvl(2) cl have "a \<in> set b0" by simp
    from advance_cyclic_0 [OF dist [unfolded cl] pos [unfolded cl] this] show ?thesis
      unfolding cl 1 .
  next
    case 2
    with lvl(2) cl have "a \<in> set b1" by simp
    from advance_cyclic_1 [OF dist [unfolded cl] pos [unfolded cl] this] show ?thesis
      unfolding cl 2 .
  next
    case 3
    with lvl(2) cl have "a \<in> set b2" by simp
    from advance_cyclic_2 [OF dist [unfolded cl] pos [unfolded cl] this] show ?thesis
      unfolding cl 3 .
  qed
qed


lemma registry_ok_distinct_concat:
  assumes "registry_ok s"
  shows "distinct (concat (my_client_list s))"
proof -
  from three_buckets [OF registry_ok_length [OF assms]]
  obtain b0 b1 b2 where cl: "my_client_list s = [b0, b1, b2]" .
  have d: "distinct b0" "distinct b1" "distinct b2"
    using registry_ok_distinct [OF assms, of 0] registry_ok_distinct [OF assms, of 1]
      registry_ok_distinct [OF assms, of 2]
    by (simp_all add: cl num_priority_levels_def)
  have lvl: "(a \<in> set b0 \<longrightarrow> (\<exists>c. storage s a = Some c \<and> priority_level c = 0)) \<and>
             (a \<in> set b1 \<longrightarrow> (\<exists>c. storage s a = Some c \<and> priority_level c = 1)) \<and>
             (a \<in> set b2 \<longrightarrow> (\<exists>c. storage s a = Some c \<and> priority_level c = 2))" for a
    using registry_ok_bucket [OF assms, of 0 a] registry_ok_bucket [OF assms, of 1 a]
      registry_ok_bucket [OF assms, of 2 a]
    by (simp add: cl num_priority_levels_def)
  have "set b0 \<inter> set b1 = {}" "set b0 \<inter> set b2 = {}" "set b1 \<inter> set b2 = {}"
    using lvl by fastforce+
  with d show ?thesis by (auto simp: cl)
qed

lemma try_join_registered:
  assumes "registry_ok s" and "l < num_priority_levels" and "a \<in> set (my_client_list s ! l)"
  shows "\<exists>joined s'. try_join s a = Inr (joined, s')"
proof -
  from registry_ok_bucket [OF assms] obtain c where "storage s a = Some c" by blast
  then show ?thesis by (auto simp: try_join_def)
qed

lemma scan_clients_order:
  assumes ok: "registry_ok s"
    and flat: "concat (my_client_list s) = xs @ h # ys"
    and pos: "h # ys @ xs = done @ it # todo"
    and lvl: "l < num_priority_levels" "it \<in> set (my_client_list s ! l)"
  shows "scan_clients s h it l joins = Some (Inr (spec_first_to_join s joins (it # todo)))"
  using pos lvl
proof (induction todo arbitrary: "done" it l joins)
  case Nil
  from cyclic_successor [OF Nil.prems(1)] obtain us vs
    where uv: "xs @ h # ys = us @ it # vs" "hd (vs @ us @ [it]) = h"
    by auto
  from advance_cyclic [OF registry_ok_length [OF ok] registry_ok_distinct_concat [OF ok]
      flat [unfolded uv(1)] Nil.prems(2,3)] uv(2)
  obtain l' where adv: "advance (my_client_list s) it l = Some (Inr (h, l'))"
    by auto
  from try_join_registered [OF ok Nil.prems(2,3)]
  obtain joined s' where tj: "try_join s it = Inr (joined, s')" by blast
  show ?case
  proof (cases joined)
    case True
    with adv tj show ?thesis by (subst scan_clients.simps) simp
  next
    case False
    with tj have "s' = s" by (simp add: try_join_declined)
    with False adv tj show ?thesis by (subst scan_clients.simps) simp
  qed
next
  case (Cons y todo)
  from cyclic_successor [OF Cons.prems(1)] obtain us vs
    where uv: "xs @ h # ys = us @ it # vs" "hd (vs @ us @ [it]) = y"
    by auto
  from advance_cyclic [OF registry_ok_length [OF ok] registry_ok_distinct_concat [OF ok]
      flat [unfolded uv(1)] Cons.prems(2,3)] uv(2)
  obtain l' where adv: "advance (my_client_list s) it l = Some (Inr (y, l'))"
    and l': "l' < num_priority_levels" "y \<in> set (my_client_list s ! l')"
    by auto
  from try_join_registered [OF ok Cons.prems(2,3)]
  obtain joined s' where tj: "try_join s it = Inr (joined, s')" by blast
  have "distinct (h # ys @ xs)"
    using registry_ok_distinct_concat [OF ok] unfolding flat by auto
  then have d: "distinct (done @ it # y # todo)" unfolding Cons.prems(1) .
  have "h \<in> set (done @ [it])"
    using Cons.prems(1) by (cases "done") auto
  with d have "y \<noteq> h" by auto
  show ?case
  proof (cases joined)
    case True
    with adv tj show ?thesis by (subst scan_clients.simps) simp
  next
    case False
    with tj have s': "s' = s" by (simp add: try_join_declined)
    have "h # ys @ xs = (done @ [it]) @ y # todo" using Cons.prems(1) by simp
    from Cons.IH [OF this l', of "joins @ [it]"]
    have "scan_clients s h y l' (joins @ [it]) = Some (Inr (spec_first_to_join s (joins @ [it]) (y # todo)))" .
    with False adv tj s' \<open>y \<noteq> h\<close> show ?thesis
      by (subst scan_clients.simps) simp
  qed
qed


lemma try_join_iff:
  "(\<exists>s'. try_join s a = Inr (True, s')) \<longleftrightarrow> 0 < pending_worker_demand s a"
  by (auto simp: try_join_def pending_worker_demand_def split: option.splits)

lemma first_to_join_props:
  "spec_first_to_join s js order = (joins, r, s') \<Longrightarrow>
     \<exists>pre rest. joins = js @ pre \<and> order = pre @ rest \<and>
       (case r of
          None \<Rightarrow> rest = [] \<and> s' = s \<and> (\<forall>b \<in> set pre. pending_worker_demand s b = 0)
        | Some a \<Rightarrow> pre \<noteq> [] \<and> last pre = a \<and> 0 < pending_worker_demand s a \<and>
                    (\<forall>b \<in> set (butlast pre). pending_worker_demand s b = 0))"
proof (induction order arbitrary: js)
  case Nil
  then show ?case by auto
next
  case (Cons a order)
  show ?case
  proof (cases "0 < pending_worker_demand s a")
    case True
    then obtain s1 where "try_join s a = Inr (True, s1)"
      using try_join_iff [of s a] by blast
    with Cons.prems have "joins = js @ [a]" "r = Some a" by simp_all
    with True show ?thesis
      by (intro exI [of _ "[a]"] exI [of _ order]) simp
  next
    case False
    then have "\<forall>s1. try_join s a \<noteq> Inr (True, s1)"
      using try_join_iff [of s a] by auto
    with Cons.prems have "spec_first_to_join s (js @ [a]) order = (joins, r, s')"
      by (auto split: sum.splits bool.splits)
    from Cons.IH [OF this] obtain pre rest
      where pre: "joins = (js @ [a]) @ pre" "order = pre @ rest"
        "case r of
           None \<Rightarrow> rest = [] \<and> s' = s \<and> (\<forall>b \<in> set pre. pending_worker_demand s b = 0)
         | Some c \<Rightarrow> pre \<noteq> [] \<and> last pre = c \<and> 0 < pending_worker_demand s c \<and>
                     (\<forall>b \<in> set (butlast pre). pending_worker_demand s b = 0)"
      by blast
    with False show ?thesis
      by (intro exI [of _ "a # pre"] exI [of _ rest]) (auto split: option.splits)
  qed
qed

lemma scan_order_rotation:
  assumes "h \<in> set (concat clients)"
  shows "\<exists>xs ys. concat clients = xs @ h # ys \<and> spec_scan_order clients h = h # ys @ xs"
proof -
  let ?flat = "concat clients"
  from assms have "dropWhile (\<lambda>a. a \<noteq> h) ?flat \<noteq> []" by (simp add: dropWhile_eq_Nil_conv)
  moreover have "hd (dropWhile (\<lambda>a. a \<noteq> h) ?flat) = h"
    using hd_dropWhile [OF calculation] by simp
  ultimately obtain ys where ys: "dropWhile (\<lambda>a. a \<noteq> h) ?flat = h # ys"
    by (cases "dropWhile (\<lambda>a. a \<noteq> h) ?flat") auto
  have "?flat = takeWhile (\<lambda>a. a \<noteq> h) ?flat @ dropWhile (\<lambda>a. a \<noteq> h) ?flat" by simp
  with ys have "?flat = takeWhile (\<lambda>a. a \<noteq> h) ?flat @ h # ys" by simp
  moreover from ys have "spec_scan_order clients h = h # ys @ takeWhile (\<lambda>a. a \<noteq> h) ?flat"
    by (simp add: spec_scan_order_def)
  ultimately show ?thesis by blast
qed

lemma client_in_need_hint_scan:
  assumes ok: "registry_ok s" and sel: "select_next_client s hint = Inr (Some h)"
    and alive: "is_client_alive s (Some h)"
  shows "client_in_need_hint s hint =
           Some (Inr (spec_first_to_join s [] (spec_scan_order (my_client_list s) h)))"
proof -
  from alive obtain l where l: "l < num_priority_levels" "h \<in> set (my_client_list s ! l)"
    by (auto simp: is_client_alive_iff)
  from registry_ok_bucket [OF ok l] obtain c where c: "storage s h = Some c" "priority_level c = l"
    by blast
  from l registry_ok_length [OF ok] have "h \<in> set (concat (my_client_list s))"
    by (metis in_set_conv_nth set_concat UN_iff nth_mem)
  from scan_order_rotation [OF this] obtain xs ys
    where flat: "concat (my_client_list s) = xs @ h # ys"
      and order: "spec_scan_order (my_client_list s) h = h # ys @ xs"
    by blast
  have "h # ys @ xs = [] @ h # (ys @ xs)" by simp
  from scan_clients_order [OF ok flat this l, of "[]"] order
  have "scan_clients s h h l [] = Some (Inr (spec_first_to_join s [] (spec_scan_order (my_client_list s) h)))"
    by simp
  with sel c l(1) show ?thesis by (simp add: client_in_need_hint_def)
qed


lemma next_nonempty_level_returns:
  assumes len: "length cl = num_priority_levels"
    and some: "i < num_priority_levels" "cl ! i \<noteq> []"
    and lvl: "lvl < num_priority_levels"
  shows "\<exists>l < num_priority_levels. next_nonempty_level cl lvl = Some l \<and> cl ! l \<noteq> []"
proof -
  from three_buckets [OF len] obtain b0 b1 b2 where cl: "cl = [b0, b1, b2]" .
  from some have ne: "b0 \<noteq> [] \<or> b1 \<noteq> [] \<or> b2 \<noteq> []"
    unfolding cl num_priority_levels_def
    by (cases i) (auto simp: nth_Cons split: nat.splits)
  from lvl consider "lvl = 0" | "lvl = Suc 0" | "lvl = 2"
    unfolding num_priority_levels_def by arith
  then show ?thesis
  proof cases
    case 1
    with ne show ?thesis
      unfolding cl 1 next_nonempty_level_0 [OF ne] by (auto simp: num_priority_levels_def)
  next
    case 2
    with ne show ?thesis
      unfolding cl 2 next_nonempty_level_1 [OF ne] by (auto simp: num_priority_levels_def)
  next
    case 3
    with ne show ?thesis
      unfolding cl 3 next_nonempty_level_2 [OF ne] by (auto simp: num_priority_levels_def)
  qed
qed

text \<open>
  C5. In a registry that satisfies the invariant, when the selector returns a client
  \<open>h\<close> to start from, \<open>client_in_need\<close> returns, and the clients whose
  \<open>try_join\<close> it has called are an initial part of the scan order from \<open>h\<close>:
  \<open>h\<close> and the rest of its bucket, then the buckets that follow cyclically. That order
  starts at \<open>h\<close> and holds every registered client once, so no client is asked twice
  in one call. The call returns no client exactly when it has asked the whole order, back
  to \<open>h\<close>, and every client declined; a client returned is the last one asked, and
  the ones asked before it declined. The inner loop that moves to the next bucket that is
  not empty returns from every level, since the bucket of \<open>h\<close> is not empty.
\<close>

theorem client_in_need_cyclic_scan:
  assumes ok: "registry_ok s"
    and start: "select_next_client s (if is_client_alive s prev then prev else my_next_client s) = Inr (Some h)"
  shows "\<exists>joins r s'.
           client_in_need s prev = Some (Inr (joins, r, s')) \<and>
           (\<exists>rest. spec_scan_order (my_client_list s) h = joins @ rest) \<and>
           hd (spec_scan_order (my_client_list s) h) = h \<and>
           distinct (spec_scan_order (my_client_list s) h) \<and>
           set (spec_scan_order (my_client_list s) h) = set (concat (my_client_list s)) \<and>
           (r = None \<longleftrightarrow>
              joins = spec_scan_order (my_client_list s) h \<and>
              (\<forall>a \<in> set joins. pending_worker_demand s a = 0)) \<and>
           (\<forall>a. r = Some a \<longrightarrow>
              joins \<noteq> [] \<and> last joins = a \<and> 0 < pending_worker_demand s a \<and>
              (\<forall>b \<in> set (butlast joins). pending_worker_demand s b = 0)) \<and>
           (\<forall>lvl < num_priority_levels. \<exists>l < num_priority_levels.
              next_nonempty_level (my_client_list s) lvl = Some l \<and> my_client_list s ! l \<noteq> [])"
proof -
  let ?hint = "if is_client_alive s prev then prev else my_next_client s"
  let ?order = "spec_scan_order (my_client_list s) h"
  have alive: "is_client_alive s (Some h)"
  proof -
    from select_next_client_result [OF start]
    consider "Some h = ?hint" | "is_client_alive s (Some h)" by blast
    then show ?thesis
    proof cases
      case 1
      with ok show ?thesis
        by (cases "is_client_alive s prev") (auto simp: registry_ok_def)
    qed
  qed
  then obtain i where i: "i < num_priority_levels" "h \<in> set (my_client_list s ! i)"
    by (auto simp: is_client_alive_iff)
  from i registry_ok_length [OF ok] have mem: "h \<in> set (concat (my_client_list s))"
    by (metis in_set_conv_nth set_concat UN_iff nth_mem)
  from scan_order_rotation [OF mem] obtain xs ys
    where flat: "concat (my_client_list s) = xs @ h # ys" and order: "?order = h # ys @ xs"
    by blast
  have "distinct (xs @ h # ys)"
    using registry_ok_distinct_concat [OF ok] unfolding flat .
  then have dist: "distinct ?order" unfolding order by auto
  have sets: "set ?order = set (concat (my_client_list s))"
    unfolding order flat by auto
  have run: "client_in_need s prev = Some (Inr (spec_first_to_join s [] ?order))"
    using client_in_need_hint_scan [OF ok start alive]
    by (cases "is_client_alive s prev") (simp_all add: client_in_need_def)
  obtain joins r s' where res: "spec_first_to_join s [] ?order = (joins, r, s')"
    by (cases "spec_first_to_join s [] ?order")
  from first_to_join_props [OF res] obtain rest
    where pre: "?order = joins @ rest"
      and r: "case r of
          None \<Rightarrow> rest = [] \<and> s' = s \<and> (\<forall>b \<in> set joins. pending_worker_demand s b = 0)
        | Some a \<Rightarrow> joins \<noteq> [] \<and> last joins = a \<and> 0 < pending_worker_demand s a \<and>
                    (\<forall>b \<in> set (butlast joins). pending_worker_demand s b = 0)"
    by auto
  have none: "r = None \<longleftrightarrow> joins = ?order \<and> (\<forall>a \<in> set joins. pending_worker_demand s a = 0)"
  proof (cases r)
    case None
    with r pre show ?thesis by simp
  next
    case (Some a)
    with r have "a \<in> set joins" "0 < pending_worker_demand s a"
      by (auto dest: last_in_set)
    with Some show ?thesis by auto
  qed
  have some: "\<forall>a. r = Some a \<longrightarrow>
              joins \<noteq> [] \<and> last joins = a \<and> 0 < pending_worker_demand s a \<and>
              (\<forall>b \<in> set (butlast joins). pending_worker_demand s b = 0)"
    using r by (cases r) auto
  have inner: "\<forall>lvl < num_priority_levels. \<exists>l < num_priority_levels.
              next_nonempty_level (my_client_list s) lvl = Some l \<and> my_client_list s ! l \<noteq> []"
  proof (intro allI impI)
    fix lvl assume "lvl < num_priority_levels"
    from i(2) have "my_client_list s ! i \<noteq> []" by auto
    from next_nonempty_level_returns [OF registry_ok_length [OF ok] i(1) this \<open>lvl < num_priority_levels\<close>]
    show "\<exists>l < num_priority_levels.
              next_nonempty_level (my_client_list s) lvl = Some l \<and> my_client_list s ! l \<noteq> []" .
  qed
  have first: "hd ?order = h" unfolding order by simp
  from run res have run': "client_in_need s prev = Some (Inr (joins, r, s'))" by simp
  from pre have pre': "\<exists>rest. ?order = joins @ rest" by blast
  show ?thesis
    by (rule exI [of _ joins], rule exI [of _ r], rule exI [of _ s'], intro conjI)
       (rule run' pre' first dist sets none some inner)+
qed

theorem client_in_need_cyclic_scan_witness:
  "registry_ok clients_B_C \<and>
   select_next_client clients_B_C
     (if is_client_alive clients_B_C (Some 30) then Some 30 else my_next_client clients_B_C) = Inr (Some 20) \<and>
   spec_scan_order (my_client_list clients_B_C) 20 = [20, 30] \<and>
   find_and_join_calls clients_B_C [Some 30] = [([20], Some 20)] \<and>
   (\<exists>s'. client_in_need clients_B_C (Some 30) = Some (Inr ([20], Some 20, s'))) \<and>
   next_nonempty_level (my_client_list clients_B_C) 2 = Some 1 \<and>
   find_and_join_calls registered_X [None] = [([40], None)]"
proof -
  have ok: "registry_ok clients_B_C" by (rule registry_ok_examples)
  have start: "select_next_client clients_B_C
     (if is_client_alive clients_B_C (Some 30) then Some 30 else my_next_client clients_B_C) = Inr (Some 20)"
    by code_simp
  have order: "spec_scan_order (my_client_list clients_B_C) 20 = [20, 30]"
    by code_simp
  have calls: "find_and_join_calls clients_B_C [Some 30] = [([20], Some 20)]"
    by code_simp
  from client_in_need_cyclic_scan [OF ok start] obtain joins r s'
    where run: "client_in_need clients_B_C (Some 30) = Some (Inr (joins, r, s'))"
    by blast
  with calls have "joins = [20]" "r = Some 20" by simp_all
  with run have "\<exists>s'. client_in_need clients_B_C (Some 30) = Some (Inr ([20], Some 20, s'))"
    by blast
  moreover have "next_nonempty_level (my_client_list clients_B_C) 2 = Some 1"
    by code_simp
  moreover have "find_and_join_calls registered_X [None] = [([40], None)]"
    by code_simp
  ultimately show ?thesis using ok start order calls by blast
qed

subsection \<open>The worker loop\<close>

lemmas scan_eval =
  client_in_need_def client_in_need_hint_def scan_clients.simps advance_def
  next_nonempty_level.simps try_join_def

lemma process_while_pass:
  "spec_pass cp s client cs = Some s' \<Longrightarrow>
     process_while cp s td client trace =
       Some (Inr (s', (if cs = [] then td else td\<lparr>my_last_client := Some (last cs)\<rparr>),
                  trace @ map Process cs))"
proof (induction cs arbitrary: s td client trace)
  case Nil
  then show ?case
    by (subst process_while.simps)
       (auto split: option.splits sum.splits prod.splits)
next
  case (Cons c cs)
  from Cons.prems obtain joins s1
    where call: "client_in_need s client = Some (Inr (joins, Some c, s1))"
      and rest: "spec_pass cp (cp c s1) (Some c) cs = Some s'"
    by (auto split: option.splits sum.splits prod.splits if_splits)
  from Cons.IH [OF rest, of "td\<lparr>my_last_client := Some c\<rparr>" "trace @ [Process c]"] call
  show ?case
    by (subst process_while.simps) simp
qed

lemma process_while_returns:
  assumes run: "process_while cp s td client trace = Some y"
  shows "\<forall>s' td' trace'. y = Inr (s', td', trace') \<longrightarrow>
           (\<exists>cs. spec_pass cp s client cs = Some s' \<and> trace' = trace @ map Process cs \<and>
                 td' = (if cs = [] then td else td\<lparr>my_last_client := Some (last cs)\<rparr>))"
proof (induct rule: process_while.raw_induct [OF _ run])
  case (1 while cp s td client trace y)
  note IH = "1"(1) and body = "1"(2)
  show ?case
  proof (intro allI impI)
    fix s' td' trace'
    assume y: "y = Inr (s', td', trace')"
    from body y obtain joins r s1 where call: "client_in_need s client = Some (Inr (joins, r, s1))"
      by (auto split: option.splits sum.splits prod.splits)
    show "\<exists>cs. spec_pass cp s client cs = Some s' \<and> trace' = trace @ map Process cs \<and>
                 td' = (if cs = [] then td else td\<lparr>my_last_client := Some (last cs)\<rparr>)"
    proof (cases r)
      case None
      with body y call have "s' = s1" "td' = td" "trace' = trace" by simp_all
      with None call show ?thesis
        by (intro exI [of _ "[]"]) simp
    next
      case (Some c)
      with body call
      have "while cp (cp c s1) (td\<lparr>my_last_client := Some c\<rparr>) (Some c) (trace @ [Process c]) = Some y"
        by simp
      from IH [OF this] y obtain cs
        where cs: "spec_pass cp (cp c s1) (Some c) cs = Some s'"
          "trace' = (trace @ [Process c]) @ map Process cs"
          "td' = (if cs = [] then td\<lparr>my_last_client := Some c\<rparr>
                  else td\<lparr>my_last_client := Some c\<rparr>\<lparr>my_last_client := Some (last cs)\<rparr>)"
        by blast
      with Some call show ?thesis
        by (intro exI [of _ "c # cs"]) simp
    qed
  qed
qed

lemma process_while_iff:
  "process_while cp s td client trace = Some (Inr (s', td', trace')) \<longleftrightarrow>
     (\<exists>cs. spec_pass cp s client cs = Some s' \<and> trace' = trace @ map Process cs \<and>
           td' = (if cs = [] then td else td\<lparr>my_last_client := Some (last cs)\<rparr>))"
proof
  assume "process_while cp s td client trace = Some (Inr (s', td', trace'))"
  from process_while_returns [OF this]
  show "\<exists>cs. spec_pass cp s client cs = Some s' \<and> trace' = trace @ map Process cs \<and>
           td' = (if cs = [] then td else td\<lparr>my_last_client := Some (last cs)\<rparr>)"
    by blast
next
  assume "\<exists>cs. spec_pass cp s client cs = Some s' \<and> trace' = trace @ map Process cs \<and>
           td' = (if cs = [] then td else td\<lparr>my_last_client := Some (last cs)\<rparr>)"
  then obtain cs where cs: "spec_pass cp s client cs = Some s'" "trace' = trace @ map Process cs"
      "td' = (if cs = [] then td else td\<lparr>my_last_client := Some (last cs)\<rparr>)"
    by blast
  from process_while_pass [OF cs(1), of td trace] cs(2,3)
  show "process_while cp s td client trace = Some (Inr (s', td', trace'))"
    by simp
qed

lemma process_unfold:
  "process cp yl s td =
     (case process_while cp s td (my_last_client td) [] of
        None \<Rightarrow> None
      | Some (Inl f) \<Rightarrow> Some (Inl f)
      | Some (Inr (s1, td1, trace1)) \<Rightarrow> process_while cp (yl s1) td1 None (trace1 @ [Yield]))"
proof -
  have last: "process_for cp yl (Suc (Suc 0)) s2 td2 None tr2 = Some (Inr (s2, td2, tr2))" for s2 td2 tr2
    by (simp add: process_for.simps [of cp yl "Suc (Suc 0)"])
  have second: "process_for cp yl (Suc 0) s1 td1 None tr1 = process_while cp s1 td1 None tr1" for s1 td1 tr1
    by (simp add: process_for.simps [of cp yl "Suc 0"] last split: option.splits sum.splits prod.splits)
  show ?thesis
    by (simp add: process_def process_for.simps [of cp yl 0] second
          split: option.splits sum.splits prod.splits)
qed

text \<open>
  C6, as amended. \<open>process\<close> makes two passes. In each pass it calls
  \<open>client_in_need\<close> again and again and, while a client is returned, records it as
  the worker's \<open>my_last_client\<close> and runs that client's \<open>process\<close>; the first
  pass starts from the last client the worker remembers, the second from no client. It
  yields once, between the two passes. It returns exactly when a call of
  \<open>client_in_need\<close> in the second pass finds no client: the first call after the
  yield, or a later call when the second pass has joined clients. The trace of a call
  that returns is the clients of the first pass, the yield, the clients of the second
  pass.
\<close>

theorem process_two_passes:
  "process cp yl s td = Some (Inr (s', td', trace)) \<longleftrightarrow>
     (\<exists>cs1 cs2 s1.
        spec_pass cp s (my_last_client td) cs1 = Some s1 \<and>
        spec_pass cp (yl s1) None cs2 = Some s' \<and>
        trace = map Process cs1 @ Yield # map Process cs2 \<and>
        td' = (if cs1 @ cs2 = [] then td else td\<lparr>my_last_client := Some (last (cs1 @ cs2))\<rparr>))"
proof
  assume run: "process cp yl s td = Some (Inr (s', td', trace))"
  then obtain s1 td1 trace1
    where first: "process_while cp s td (my_last_client td) [] = Some (Inr (s1, td1, trace1))"
      and second: "process_while cp (yl s1) td1 None (trace1 @ [Yield]) = Some (Inr (s', td', trace))"
    unfolding process_unfold by (auto split: option.splits sum.splits prod.splits)
  from first obtain cs1
    where cs1: "spec_pass cp s (my_last_client td) cs1 = Some s1" "trace1 = map Process cs1"
      "td1 = (if cs1 = [] then td else td\<lparr>my_last_client := Some (last cs1)\<rparr>)"
    unfolding process_while_iff by auto
  from second obtain cs2
    where cs2: "spec_pass cp (yl s1) None cs2 = Some s'" "trace = (trace1 @ [Yield]) @ map Process cs2"
      "td' = (if cs2 = [] then td1 else td1\<lparr>my_last_client := Some (last cs2)\<rparr>)"
    unfolding process_while_iff by auto
  from cs1(3) cs2(3)
  have "td' = (if cs1 @ cs2 = [] then td else td\<lparr>my_last_client := Some (last (cs1 @ cs2))\<rparr>)"
    by simp
  with cs1 cs2 show "\<exists>cs1 cs2 s1.
        spec_pass cp s (my_last_client td) cs1 = Some s1 \<and>
        spec_pass cp (yl s1) None cs2 = Some s' \<and>
        trace = map Process cs1 @ Yield # map Process cs2 \<and>
        td' = (if cs1 @ cs2 = [] then td else td\<lparr>my_last_client := Some (last (cs1 @ cs2))\<rparr>)"
    by (intro exI [of _ cs1] exI [of _ cs2] exI [of _ s1]) simp
next
  assume "\<exists>cs1 cs2 s1.
        spec_pass cp s (my_last_client td) cs1 = Some s1 \<and>
        spec_pass cp (yl s1) None cs2 = Some s' \<and>
        trace = map Process cs1 @ Yield # map Process cs2 \<and>
        td' = (if cs1 @ cs2 = [] then td else td\<lparr>my_last_client := Some (last (cs1 @ cs2))\<rparr>)"
  then obtain cs1 cs2 s1
    where p1: "spec_pass cp s (my_last_client td) cs1 = Some s1"
      and p2: "spec_pass cp (yl s1) None cs2 = Some s'"
      and tr: "trace = map Process cs1 @ Yield # map Process cs2"
      and td': "td' = (if cs1 @ cs2 = [] then td else td\<lparr>my_last_client := Some (last (cs1 @ cs2))\<rparr>)"
    by blast
  let ?td1 = "if cs1 = [] then td else td\<lparr>my_last_client := Some (last cs1)\<rparr>"
  from process_while_pass [OF p1, of td "[]"]
  have first: "process_while cp s td (my_last_client td) [] = Some (Inr (s1, ?td1, map Process cs1))"
    by simp
  from process_while_pass [OF p2, of ?td1 "map Process cs1 @ [Yield]"]
  have "process_while cp (yl s1) ?td1 None (map Process cs1 @ [Yield]) =
          Some (Inr (s', (if cs2 = [] then ?td1 else ?td1\<lparr>my_last_client := Some (last cs2)\<rparr>),
                     (map Process cs1 @ [Yield]) @ map Process cs2))" .
  moreover have "(if cs2 = [] then ?td1 else ?td1\<lparr>my_last_client := Some (last cs2)\<rparr>) = td'"
    unfolding td' by simp
  ultimately show "process cp yl s td = Some (Inr (s', td', trace))"
    unfolding process_unfold first tr by simp
qed

theorem process_two_passes_witness:
  "spec_pass no_effect registered_X (my_last_client new_worker) [] = Some registered_X \<and>
   spec_pass no_effect (demand_raised registered_X) None [40] = Some registered_X \<and>
   process no_effect demand_raised registered_X new_worker =
     Some (Inr (registered_X, new_worker\<lparr>my_last_client := Some 40\<rparr>, [Yield, Process 40]))"
proof -
  have p1: "spec_pass no_effect registered_X (my_last_client new_worker) [] = Some registered_X"
    by (simp add: new_worker_def registered_X_def arena_X_def eval_defs scan_eval)
  have p2: "spec_pass no_effect (demand_raised registered_X) None [40] = Some registered_X"
    by (simp add: no_effect_def demand_raised_def registered_X_def arena_X_def eval_defs scan_eval)
  have "\<exists>cs1 cs2 s1.
        spec_pass no_effect registered_X (my_last_client new_worker) cs1 = Some s1 \<and>
        spec_pass no_effect (demand_raised s1) None cs2 = Some registered_X \<and>
        [Yield, Process 40] = map Process cs1 @ Yield # map Process cs2 \<and>
        new_worker\<lparr>my_last_client := Some 40\<rparr> =
          (if cs1 @ cs2 = [] then new_worker
           else new_worker\<lparr>my_last_client := Some (last (cs1 @ cs2))\<rparr>)"
    using p1 p2 by (intro exI [of _ "[]"] exI [of _ "[40]"] exI [of _ registered_X]) simp
  then have "process no_effect demand_raised registered_X new_worker =
     Some (Inr (registered_X, new_worker\<lparr>my_last_client := Some 40\<rparr>, [Yield, Process 40]))"
    by (simp only: process_two_passes)
  with p1 p2 show ?thesis by simp
qed

text \<open>
  C6 as stated says that \<open>process\<close> returns exactly when the first call of
  \<open>client_in_need\<close> after the yield finds no client. Here the first pass joins
  nothing and ends in the state it started in; during the yield the demand of the client
  at 40 goes up to one; the first call of the second pass finds that client; and
  \<open>process\<close> returns all the same, after running it, when the second call of the
  second pass finds no client.
\<close>

theorem process_second_pass_counterexample:
  "process no_effect demand_raised registered_X new_worker =
     Some (Inr (registered_X, \<lparr>my_last_client = Some 40\<rparr>, [Yield, Process 40])) \<and>
   process_while no_effect registered_X new_worker (my_last_client new_worker) [] =
     Some (Inr (registered_X, new_worker, [])) \<and>
   client_in_need (demand_raised registered_X) None = Some (Inr ([40], Some 40, registered_X))"
  by (simp add: process_def process_for.simps process_while.simps no_effect_def new_worker_def
      demand_raised_def registered_X_def arena_X_def eval_defs scan_eval)

subsection \<open>The invariant between calls\<close>

text \<open>
  The invariant holds of a dispatcher with no client (\<open>registry_ok_examples\<close>), and
  every operation of the dispatcher that returns keeps it: \<open>create_client\<close> with an
  address that is free, \<open>register_client\<close>, \<open>try_unregister_client\<close> and
  \<open>client_in_need\<close>.
\<close>

lemma same_registry_refl: "same_registry s s"
  by (simp add: same_registry_def)

lemma same_registry_ok:
  assumes "same_registry s s'" and "registry_ok s"
  shows "registry_ok s'"
proof -
  from assms(1) have lists: "my_client_list s' = my_client_list s"
    and cursor: "my_next_client s' = my_next_client s"
    and levels: "\<And>a. map_option priority_level (storage s' a) = map_option priority_level (storage s a)"
    by (simp_all add: same_registry_def)
  have "\<exists>c. storage s' a = Some c \<and> priority_level c = i"
    if "i < num_priority_levels" "a \<in> set (my_client_list s ! i)" for i a
  proof -
    from registry_ok_bucket [OF assms(2) that] obtain c
      where "storage s a = Some c" "priority_level c = i" by blast
    with levels [of a] show ?thesis by (cases "storage s' a") auto
  qed
  moreover have "my_next_client s' = None \<or> is_client_alive s' (my_next_client s')"
    using assms(2) is_client_alive_lists [OF lists] cursor by (simp add: registry_ok_def)
  ultimately show ?thesis
    using registry_ok_length [OF assms(2)] registry_ok_distinct [OF assms(2)]
    unfolding registry_ok_def lists by blast
qed

lemma try_join_same_registry: "try_join s t = Inr (joined, s') \<Longrightarrow> same_registry s s'"
  by (auto simp: try_join_def same_registry_def split: option.splits if_splits)

lemma scan_clients_same_registry:
  assumes run: "scan_clients s hint it lvl joins = Some y"
  shows "\<forall>joins' r s'. y = Inr (joins', r, s') \<longrightarrow> same_registry s s'"
proof (induct rule: scan_clients.raw_induct [OF _ run])
  case (1 scan s hint it lvl joins y)
  note IH = "1"(1) and body = "1"(2)
  show ?case
  proof (intro allI impI)
    fix joins' r s'
    assume y: "y = Inr (joins', r, s')"
    from body y obtain it' l' joined s1
      where tj: "try_join s it = Inr (joined, s1)"
        and rest: "(if joined then Some (Inr (joins @ [it], Some it, s1))
                    else if it' \<noteq> hint then scan s1 hint it' l' (joins @ [it])
                    else Some (Inr (joins @ [it], None, s1))) = Some y"
      by (auto split: option.splits sum.splits prod.splits split del: if_split)
    show "same_registry s s'"
    proof (cases "joined \<or> it' = hint")
      case True
      with rest y have "s' = s1" by (auto split: if_splits)
      with tj show ?thesis by (simp add: try_join_same_registry)
    next
      case False
      with tj have "s1 = s" by (simp add: try_join_declined)
      with False rest IH [of s hint it' l' "joins @ [it]" y] y show ?thesis by auto
    qed
  qed
qed

lemma client_in_need_same_registry:
  assumes "client_in_need s prev = Some (Inr (joins, r, s'))"
  shows "same_registry s s'"
proof -
  have hint: "same_registry s s'"
    if "client_in_need_hint s hint = Some (Inr (joins, r, s'))" for hint
    using that scan_clients_same_registry [of s _ _ _ "[]" "Inr (joins, r, s')"] same_registry_refl [of s]
    by (auto simp: client_in_need_hint_def split: sum.splits option.splits if_splits)
  from assms show ?thesis
    by (auto simp: client_in_need_def intro: hint split: if_splits)
qed

lemma registry_ok_preserved:
  assumes "registry_ok s"
  shows "register_client s client = Inr s' \<Longrightarrow> registry_ok s'"
    and "try_unregister_client s client epoch priority = Inr (b, s') \<Longrightarrow> registry_ok s'"
    and "client_in_need s prev = Some (Inr (joins, r, s')) \<Longrightarrow> registry_ok s'"
    and "storage s p = None \<Longrightarrow> registry_ok (snd (create_client s p a))"
proof -
  show "registry_ok s'" if run: "register_client s client = Inr s'"
  proof -
    from run obtain c cl where c: "client = Some c" "insert_client s c = Inr s'"
      "storage s c = Some cl" "priority_level cl < num_priority_levels"
      "\<not> linked (my_client_list s) c"
      by (auto simp: register_client_def insert_client_def push_front_def
               split: option.splits if_splits)
    from insert_client_ok [OF assms c(3-5)] c(2) show ?thesis by auto
  qed
  show "registry_ok s'" if run: "try_unregister_client s client epoch priority = Inr (b, s')"
  proof (cases b)
    case False
    with run have "s' = s"
      by (auto simp: try_unregister_client_def try_unregister_loop_found
               split: option.splits if_splits sum.splits)
    with assms show ?thesis by simp
  next
    case True
    with run obtain c where c: "client = Some c" "priority < num_priority_levels"
        "c \<in> set (my_client_list s ! priority)"
      by (auto simp: try_unregister_client_def try_unregister_loop_found
               split: option.splits if_splits)
    let ?cl = "(my_client_list s)[priority := remove1 c (my_client_list s ! priority)]"
    from remove_client_ok [OF assms c(2,3)] obtain n
      where n: "remove_client s c = Inr (s\<lparr>my_client_list := ?cl, my_next_client := n\<rparr>)"
        and ok': "registry_ok (s\<lparr>my_client_list := ?cl, my_next_client := n\<rparr>)"
        and gone: "\<forall>j < num_priority_levels. c \<notin> set (?cl ! j)"
      by blast
    from run True c n
    have "s' = s\<lparr>my_client_list := ?cl, my_next_client := n\<rparr>
                \<lparr>my_clients_aba_epoch := my_clients_aba_epoch s + 1,
                 storage := (storage s)(c := None)\<rparr>"
      by (auto simp: try_unregister_client_def try_unregister_loop_found
               split: option.splits if_splits)
    moreover from gone have "\<forall>j < num_priority_levels.
        c \<notin> set (my_client_list (s\<lparr>my_client_list := ?cl, my_next_client := n\<rparr>) ! j)"
      by simp
    from registry_ok_freed [OF ok' this, of "my_clients_aba_epoch s + 1"]
    have "registry_ok (s\<lparr>my_client_list := ?cl, my_next_client := n\<rparr>
                \<lparr>my_clients_aba_epoch := my_clients_aba_epoch s + 1,
                 storage := (storage s)(c := None)\<rparr>)"
      by simp
    ultimately show ?thesis by simp
  qed
  show "registry_ok s'" if "client_in_need s prev = Some (Inr (joins, r, s'))"
    using same_registry_ok [OF client_in_need_same_registry [OF that] assms] .
  show "registry_ok (snd (create_client s p a))" if free: "storage s p = None"
  proof -
    let ?s' = "snd (create_client s p a)"
    have lists: "my_client_list ?s' = my_client_list s" by (simp add: create_client_def)
    have "\<exists>c. storage ?s' x = Some c \<and> priority_level c = i"
      if "i < num_priority_levels" "x \<in> set (my_client_list s ! i)" for i x
    proof -
      from registry_ok_bucket [OF assms that] free have "x \<noteq> p" by auto
      with registry_ok_bucket [OF assms that] show ?thesis by (simp add: create_client_def)
    qed
    moreover have "my_next_client ?s' = None \<or> is_client_alive ?s' (my_next_client ?s')"
      using assms is_client_alive_lists [OF lists] by (simp add: registry_ok_def create_client_def)
    ultimately show ?thesis
      using registry_ok_length [OF assms] registry_ok_distinct [OF assms]
      unfolding registry_ok_def lists by blast
  qed
qed

end
